theory Spec2Isabelle
  imports Complex_Main "HOL-Library.Word" "HOL-Library.Monad_Syntax"
    "HOL-Library.Char_ord" "HOL-Library.List_Lexorder"
begin

section \<open>The parser engine (cparsec.hpp)\<close>

subsection \<open>Parse states and parse results\<close>

text \<open>
  \<^verbatim>\<open>struct ParseState { unsigned long long pos; std::shared_ptr<std::string> s; }\<close>.
  The buffer is shared and never written, so a state is a position and the text.  The
  field \<^verbatim>\<open>s\<close> is called \<open>inp\<close> here.  The position is a \<open>nat\<close>: the only arithmetic
  on it is \<^verbatim>\<open>s.pos + 1\<close> in \<^verbatim>\<open>idP\<close>, evaluated together with \<^verbatim>\<open>s.s->at(s.pos)\<close>, which
  throws unless \<^verbatim>\<open>s.pos < s.s->size()\<close>; a result is therefore only returned when the
  sum fits in 64 bits.
\<close>

datatype ParseState = ParseState (pos: nat) (inp: string)

text \<open>
  \<^verbatim>\<open>ParseResult<T>\<close> is a tagged union: \<^verbatim>\<open>ParseResult(T r, ParseState s)\<close> builds a
  success, \<^verbatim>\<open>ParseResult(ParseState s, std::list<std::string> e)\<close> a failure.
\<close>

datatype 'a ParseResult =
    Success (result: 'a) (state: ParseState)
  | Failure (state: ParseState) (error: "string list")

fun success :: "'a ParseResult \<Rightarrow> bool" where
  "success (Success r st) = True"
| "success (Failure st e) = False"

text \<open>
  A parser is a function from states to results.  A call that returns no
  \<^verbatim>\<open>ParseResult\<close> has the value \<open>None\<close>: the recursion of \<^verbatim>\<open>manyP\<close> does not end,
  \<^verbatim>\<open>std::string::at\<close> throws \<^verbatim>\<open>std::out_of_range\<close> (no combinator catches it), or a failed
  result is copied (see \<^verbatim>\<open>stringP\<close>).
\<close>

type_synonym 'a Parser = "ParseState \<Rightarrow> 'a ParseResult option"

definition parse :: "'a Parser \<Rightarrow> string \<Rightarrow> 'a ParseResult option" where
  "parse p str = p (ParseState 0 str)"

subsection \<open>Combinators\<close>

definition mapP :: "'a Parser \<Rightarrow> ('a \<Rightarrow> 'b) \<Rightarrow> 'b Parser" where
  "mapP p f = (\<lambda>s. do {
     r \<leftarrow> p s;
     if \<not> success r then Some (Failure (state r) (error r))
     else Some (Success (f (result r)) (state r)) })"

text \<open>
  \<^verbatim>\<open>orP(p, ps...)\<close> is a variadic template with at least one parser; the single-parser
  overload returns \<^verbatim>\<open>p\<close> itself.
\<close>

fun orP :: "'a Parser \<Rightarrow> 'a Parser list \<Rightarrow> 'a Parser" where
  "orP p [] = p"
| "orP p (q # ps) = (\<lambda>s. do {
     r \<leftarrow> p s;
     if \<not> success r then orP q ps s else Some r })"

definition pureP :: "'a \<Rightarrow> 'a Parser" where
  "pureP x = (\<lambda>s. Some (Success x s))"

definition andP :: "'a Parser \<Rightarrow> 'b Parser \<Rightarrow> ('a \<Rightarrow> 'b \<Rightarrow> 'c) \<Rightarrow> 'c Parser" where
  "andP pa pb f = (\<lambda>s. do {
     ra \<leftarrow> pa s;
     if \<not> success ra then Some (Failure (state ra) (error ra))
     else do {
       rb \<leftarrow> pb (state ra);
       if \<not> success rb then Some (Failure (state rb) (error rb))
       else Some (Success (f (result ra) (result rb)) (state rb)) } })"

definition leftP :: "'a Parser \<Rightarrow> 'b Parser \<Rightarrow> 'a Parser" where
  "leftP pa pb = andP pa pb (\<lambda>a b. a)"

definition rightP :: "'a Parser \<Rightarrow> 'b Parser \<Rightarrow> 'b Parser" where
  "rightP pa pb = andP pa pb (\<lambda>a b. b)"

text \<open>
  \<^verbatim>\<open>manyP\<close> calls itself on the state after each success of \<^verbatim>\<open>p\<close>; nothing bounds the
  recursion.  The recursive result is read with \<^verbatim>\<open>rs.result\<close> and \<^verbatim>\<open>rs.state\<close> without a
  look at its tag.
\<close>

partial_function (option) manyP :: "'a Parser \<Rightarrow> ParseState \<Rightarrow> 'a list ParseResult option" where
  "manyP p s = do {
     r \<leftarrow> p s;
     if \<not> success r then Some (Success [] s)
     else do {
       rs \<leftarrow> manyP p (state r);
       Some (Success (result r # result rs) (state rs)) } }"

definition someP :: "'a Parser \<Rightarrow> 'a list Parser" where
  "someP p = andP p (manyP p) (\<lambda>r rs. r # rs)"

subsection \<open>Primitives\<close>

definition idP :: "char Parser" where
  "idP = (\<lambda>s.
     if pos s = length (inp s) then Some (Failure s [''end of file''])
     else if pos s < length (inp s)
       then Some (Success (inp s ! pos s) (ParseState (pos s + 1) (inp s)))
       else None)"

definition eofP :: "bool Parser" where
  "eofP = (\<lambda>s.
     if pos s = length (inp s) then Some (Success True s)
     else Some (Failure s [''expect end of file'']))"

definition predP :: "(char \<Rightarrow> bool) \<Rightarrow> char Parser" where
  "predP f = (\<lambda>s. do {
     r \<leftarrow> idP s;
     if \<not> success r then Some (Failure (state r) (error r))
     else if \<not> f (result r) then Some (Failure (state r) [''unexpect '' @ [result r]])
     else Some r })"

definition charP :: "char \<Rightarrow> char Parser" where
  "charP c = predP (\<lambda>x. c = x)"

definition oneOfP :: "string \<Rightarrow> char Parser" where
  "oneOfP str = predP (\<lambda>c. foldl (\<lambda>t x. t \<or> c = x) False str)"

text \<open>
  In \<^verbatim>\<open>stringP\<close> a failure of the first character is rebuilt with the two-argument
  constructor.  A failure of the rest of the literal is handed on by \<^verbatim>\<open>return rs\<close>, a
  copy of the local \<^verbatim>\<open>rs\<close>: the copy constructor of \<^verbatim>\<open>ParseResult\<close> assigns to the union
  member \<^verbatim>\<open>error\<close>, a \<^verbatim>\<open>std::list\<close> that was never constructed, and the program stops
  there.  No result is returned on this path.
\<close>

fun stringP :: "string \<Rightarrow> string Parser" where
  "stringP [] = (\<lambda>s. Some (Success [] s))"
| "stringP (c # cs) = (\<lambda>s. do {
     r \<leftarrow> charP c s;
     if \<not> success r then Some (Failure (state r) (error r))
     else do {
       rs \<leftarrow> stringP cs (state r);
       if \<not> success rs then None
       else Some (Success (c # cs) (state rs)) } })"

subsection \<open>Characters, numbers\<close>

definition space :: "char Parser" where
  "space = oneOfP [CHR '' '', CHR 0x0A, CHR 0x09]"

definition spaces :: "char list Parser" where
  "spaces = manyP space"

text \<open>
  \<^verbatim>\<open>int\<close> is a 32-bit word read in two's complement (\<open>sint\<close>); where C++ leaves signed overflow undefined
  the word wraps, as the usual targets do.  \<^verbatim>\<open>c - '0'\<close> is computed on the promoted
  character codes and only ever applied to \<^verbatim>\<open>'0'..'9'\<close>.
\<close>

type_synonym int32 = "32 word"

definition is_digit :: "char \<Rightarrow> bool" where
  "is_digit c \<longleftrightarrow> CHR ''0'' \<le> c \<and> c \<le> CHR ''9''"

definition digit_value :: "char \<Rightarrow> int32" where
  "digit_value c = word_of_int (of_char c - of_char CHR ''0'')"

definition digitP :: "int32 Parser" where
  "digitP = mapP (predP is_digit) digit_value"

definition digits_value :: "int32 list \<Rightarrow> int32" where
  "digits_value ns = foldl (\<lambda>n i. n * 10 + i) 0 ns"

definition natP :: "int32 Parser" where
  "natP = mapP (someP digitP) digits_value"

definition intP :: "int32 Parser" where
  "intP = orP (mapP (rightP (charP CHR ''-'') natP) (\<lambda>x. - x)) [natP]"

text \<open>
  A \<^verbatim>\<open>double\<close> is modelled by the real number it denotes.  Every floating-point
  operation of the source rounds its exact result; the rounding is the parameter
  \<open>rnd\<close>, applied wherever the source computes on doubles: to the literal \<^verbatim>\<open>0.1\<close>, to
  \<^verbatim>\<open>i * base\<close>, to \<^verbatim>\<open>ans += ...\<close>, to \<^verbatim>\<open>base /= 10\<close> and to \<^verbatim>\<open>x + y\<close>.  The conversion of an
  \<^verbatim>\<open>int\<close> to \<^verbatim>\<open>double\<close> is exact.
\<close>

definition to_double :: "int32 \<Rightarrow> real" where
  "to_double x = real_of_int (sint x)"

definition fracP :: "(real \<Rightarrow> real) \<Rightarrow> int32 list \<Rightarrow> real" where
  "fracP rnd ns = fst (foldl (\<lambda>(ans, base) i.
       (rnd (ans + rnd (to_double i * base)), rnd (base / 10))) (0, rnd (1 / 10)) ns)"

definition doubleP :: "(real \<Rightarrow> real) \<Rightarrow> real Parser" where
  "doubleP rnd = orP
     (andP intP (rightP (charP CHR ''.'') (mapP (someP digitP) (fracP rnd)))
           (\<lambda>x y. rnd (to_double x + y)))
     [mapP intP (\<lambda>x. to_double x)]"

definition betweenP :: "'a Parser \<Rightarrow> 'b Parser \<Rightarrow> 'c Parser \<Rightarrow> 'c Parser" where
  "betweenP lp rp p = rightP lp (leftP p rp)"

definition trimP :: "'a Parser \<Rightarrow> 'a Parser" where
  "trimP p = rightP spaces (leftP p spaces)"

definition lazyP :: "(unit \<Rightarrow> 'a Parser) \<Rightarrow> 'a Parser" where
  "lazyP f = (\<lambda>s. f () s)"

section \<open>The JSON grammar (jsonp.hpp)\<close>

text \<open>
  \<^verbatim>\<open>std::map<std::string, JsonValue>\<close> keeps its entries ordered by key and compares
  entry by entry in that order: an association list sorted by key, without duplicate
  keys.  \<^verbatim>\<open>std::string\<close> is ordered lexicographically on the character codes.
\<close>

datatype JsonValue =
    JSON_NULL
  | JSON_BOOL bool
  | JSON_NUM real
  | JSON_STRING string
  | JSON_ARRAY "JsonValue list"
  | JSON_OBJECT "(string \<times> JsonValue) list"

text \<open>\<^verbatim>\<open>m[k] = v\<close> on a \<^verbatim>\<open>std::map\<close>: overwrite the entry of \<open>k\<close>, or insert it in key order.\<close>

fun map_assign :: "string \<Rightarrow> 'v \<Rightarrow> (string \<times> 'v) list \<Rightarrow> (string \<times> 'v) list" where
  "map_assign k v [] = [(k, v)]"
| "map_assign k v ((k', v') # m) =
     (if k < k' then (k, v) # (k', v') # m
      else if k = k' then (k, v) # m
      else (k', v') # map_assign k v m)"

text \<open>\<^verbatim>\<open>for (kv i : xs) m[i.first] = i.second\<close>, from the empty map.\<close>

definition to_map :: "(string \<times> 'v) list \<Rightarrow> (string \<times> 'v) list" where
  "to_map xs = foldl (\<lambda>m i. map_assign (fst i) (snd i) m) [] xs"

definition nullP :: "JsonValue Parser" where
  "nullP = trimP (mapP (stringP ''null'') (\<lambda>s. JSON_NULL))"

definition boolP :: "JsonValue Parser" where
  "boolP = trimP (orP (mapP (stringP ''true'') (\<lambda>s. JSON_BOOL True))
                      [mapP (stringP ''false'') (\<lambda>s. JSON_BOOL False)])"

definition numP :: "(real \<Rightarrow> real) \<Rightarrow> JsonValue Parser" where
  "numP rnd = trimP (mapP (doubleP rnd) (\<lambda>x. JSON_NUM x))"

definition escapeP :: "char Parser" where
  "escapeP = mapP idP (\<lambda>c.
     if c = CHR ''0'' then CHR 0x00
     else if c = CHR ''b'' then CHR 0x08
     else if c = CHR ''t'' then CHR 0x09
     else if c = CHR ''n'' then CHR 0x0A
     else if c = CHR ''v'' then CHR 0x0B
     else if c = CHR ''f'' then CHR 0x0C
     else if c = CHR ''r'' then CHR 0x0D
     else c)"

definition escapeStrP :: "string Parser" where
  "escapeStrP = trimP (betweenP (charP CHR 0x22) (charP CHR 0x22)
     (mapP (manyP (orP (rightP (charP CHR 0x5C) escapeP) [predP (\<lambda>c. c \<noteq> CHR 0x22)]))
           (\<lambda>cs. foldl (\<lambda>s x. s @ [x]) [] cs)))"

definition strP :: "JsonValue Parser" where
  "strP = mapP escapeStrP (\<lambda>s. JSON_STRING s)"

text \<open>
  \<^verbatim>\<open>jsonP\<close>, \<^verbatim>\<open>arrayP\<close> and \<^verbatim>\<open>objectP\<close> call each other through \<^verbatim>\<open>lazyP\<close>, at parse time
  and to any depth.  The argument after \<open>rnd\<close> bounds the number of nested calls of
  \<^verbatim>\<open>jsonP\<close>; a parse that needs more has no result (\<open>None\<close>).  \<^verbatim>\<open>itemP\<close> is the local
  parser of that name in \<^verbatim>\<open>objectP\<close>.
\<close>

fun jsonP :: "(real \<Rightarrow> real) \<Rightarrow> nat \<Rightarrow> JsonValue Parser"
  and arrayP :: "(real \<Rightarrow> real) \<Rightarrow> nat \<Rightarrow> JsonValue Parser"
  and itemP :: "(real \<Rightarrow> real) \<Rightarrow> nat \<Rightarrow> (string \<times> JsonValue) Parser"
  and objectP :: "(real \<Rightarrow> real) \<Rightarrow> nat \<Rightarrow> JsonValue Parser" where
  "jsonP rnd 0 = (\<lambda>s. None)"
| "jsonP rnd (Suc n) = orP nullP [boolP, numP rnd, strP,
     lazyP (\<lambda>_. arrayP rnd n), lazyP (\<lambda>_. objectP rnd n)]"
| "arrayP rnd n = trimP (betweenP (charP CHR ''['') (charP CHR '']'')
     (orP (andP (lazyP (\<lambda>_. jsonP rnd n))
                (manyP (rightP (charP CHR '','') (lazyP (\<lambda>_. jsonP rnd n))))
                (\<lambda>x xs. JSON_ARRAY (x # xs)))
          [pureP (JSON_ARRAY [])]))"
| "itemP rnd n = andP escapeStrP (rightP (charP CHR '':'') (lazyP (\<lambda>_. jsonP rnd n))) Pair"
| "objectP rnd n = trimP (betweenP (charP CHR ''{'') (charP CHR ''}'')
     (orP (andP (itemP rnd n)
                (manyP (rightP (charP CHR '','') (itemP rnd n)))
                (\<lambda>x xs. JSON_OBJECT (to_map (x # xs))))
          [pureP (JSON_OBJECT [])]))"

section \<open>Auxiliary notions for the properties\<close>

text \<open>
  \<open>many_run p s xs t\<close>: starting at \<open>s\<close>, the parser \<open>p\<close> succeeds \<open>length xs\<close> times in a
  row, each time on the state the previous success left, with the values \<open>xs\<close>; it is at
  \<open>t\<close> when its next attempt returns a failure.
\<close>

inductive many_run :: "'a Parser \<Rightarrow> ParseState \<Rightarrow> 'a list \<Rightarrow> ParseState \<Rightarrow> bool"
  for p :: "'a Parser" where
  stop: "p s = Some r \<Longrightarrow> \<not> success r \<Longrightarrow> many_run p s [] s"
| step: "p s = Some r \<Longrightarrow> success r \<Longrightarrow> many_run p (state r) xs t
         \<Longrightarrow> many_run p s (result r # xs) t"

code_pred (modes: i \<Rightarrow> i \<Rightarrow> o \<Rightarrow> o \<Rightarrow> bool) many_run .

declare manyP.simps [code]

text \<open>
  States inside their buffer, the text a state has still to read, and the state \<open>k\<close>
  characters further on.
\<close>

definition wf_state :: "ParseState \<Rightarrow> bool" where
  "wf_state s \<longleftrightarrow> pos s \<le> length (inp s)"

definition remaining :: "ParseState \<Rightarrow> string" where
  "remaining s = drop (pos s) (inp s)"

definition advance :: "nat \<Rightarrow> ParseState \<Rightarrow> ParseState" where
  "advance k s = ParseState (pos s + k) (inp s)"

text \<open>
  What is assumed of the rounding of the platform where a tolerance is claimed: a
  relative error of at most \<open>2\<^sup>-\<^sup>5\<^sup>3\<close>, the unit roundoff of binary64 arithmetic rounding
  to nearest, on the magnitudes between \<open>2\<^sup>-\<^sup>1\<^sup>0\<close> and \<open>2\<^sup>1\<^sup>0\<close>.
\<close>

definition double_rounding :: "(real \<Rightarrow> real) \<Rightarrow> bool" where
  "double_rounding rnd \<longleftrightarrow>
     (\<forall>x. 1 / 1024 \<le> \<bar>x\<bar> \<and> \<bar>x\<bar> \<le> 1024 \<longrightarrow> \<bar>rnd x - x\<bar> \<le> \<bar>x\<bar> / 2 ^ 53)"


text \<open>
  A parser keeps states in bounds when every result it returns from a state inside the
  buffer, success or failure, carries a state inside the same buffer.
\<close>

definition in_bounds :: "'a Parser \<Rightarrow> bool" where
  "in_bounds p \<longleftrightarrow>
     (\<forall>s r. wf_state s \<and> p s = Some r \<longrightarrow> wf_state (state r) \<and> inp (state r) = inp s)"

definition is_space :: "char \<Rightarrow> bool" where
  "is_space c \<longleftrightarrow> c \<in> set [CHR '' '', CHR 0x0A, CHR 0x09]"

definition starts_value :: "char \<Rightarrow> bool" where
  "starts_value c \<longleftrightarrow> c \<in> set ''ntf-\"[{'' \<or> is_digit c"

definition extend :: "string \<Rightarrow> ParseState \<Rightarrow> ParseState" where
  "extend x s = ParseState (pos s) (inp s @ x)"

fun extend_result :: "string \<Rightarrow> 'a ParseResult \<Rightarrow> 'a ParseResult" where
  "extend_result x (Success v t) = Success v (extend x t)"
| "extend_result x (Failure t e) = Failure (extend x t) e"

abbreviation str_charP :: "char Parser" where
  "str_charP \<equiv> orP (rightP (charP CHR 0x5C) escapeP) [predP (\<lambda>c. c \<noteq> CHR 0x22)]"

abbreviation str_coreP :: "string Parser" where
  "str_coreP \<equiv> betweenP (charP CHR 0x22) (charP CHR 0x22)
     (mapP (manyP str_charP) (\<lambda>cs. foldl (\<lambda>s x. s @ [x]) [] cs))"

abbreviation arr_coreP :: "(real \<Rightarrow> real) \<Rightarrow> nat \<Rightarrow> JsonValue Parser" where
  "arr_coreP rnd n \<equiv> betweenP (charP CHR ''['') (charP CHR '']'')
     (orP (andP (lazyP (\<lambda>_. jsonP rnd n))
                (manyP (rightP (charP CHR '','') (lazyP (\<lambda>_. jsonP rnd n))))
                (\<lambda>x xs. JSON_ARRAY (x # xs)))
          [pureP (JSON_ARRAY [])])"

abbreviation obj_coreP :: "(real \<Rightarrow> real) \<Rightarrow> nat \<Rightarrow> JsonValue Parser" where
  "obj_coreP rnd n \<equiv> betweenP (charP CHR ''{'') (charP CHR ''}'')
     (orP (andP (itemP rnd n)
                (manyP (rightP (charP CHR '','') (itemP rnd n)))
                (\<lambda>x xs. JSON_OBJECT (to_map (x # xs))))
          [pureP (JSON_OBJECT [])])"

text \<open>The alternative of \<^verbatim>\<open>jsonP\<close> that can start with the character \<open>c\<close>.\<close>

definition alternative :: "(real \<Rightarrow> real) \<Rightarrow> nat \<Rightarrow> char \<Rightarrow> JsonValue Parser option" where
  "alternative rnd m c =
     (if c = CHR ''n'' then Some nullP
      else if c = CHR ''t'' \<or> c = CHR ''f'' then Some boolP
      else if c = CHR ''-'' \<or> is_digit c then Some (numP rnd)
      else if c = CHR 0x22 then Some strP
      else if c = CHR ''['' then Some (arrayP rnd m)
      else if c = CHR ''{'' then Some (objectP rnd m)
      else None)"

text \<open>
  A parser never asks for the end of the input when none of its failures carries the
  label of \<^verbatim>\<open>eofP\<close>.
\<close>

definition no_eof_label :: "'a Parser \<Rightarrow> bool" where
  "no_eof_label p \<longleftrightarrow> (\<forall>s t e. p s = Some (Failure t e) \<longrightarrow> ''expect end of file'' \<notin> set e)"

definition stable :: "'a Parser \<Rightarrow> ParseState \<Rightarrow> bool" where
  "stable p s \<longleftrightarrow> (\<forall>x. p (extend x s) = map_option (extend_result x) (p s))"

text \<open>
  \<open>object_items rnd n s kvs t\<close>: the text at \<open>s\<close> is an object with the items \<open>kvs\<close>, in
  the order of the text, and \<open>t\<close> is the state behind it.  After blanks and \<^verbatim>\<open>{\<close> either
  \<^verbatim>\<open>itemP\<close> fails and \<^verbatim>\<open>}\<close> follows at once, or \<^verbatim>\<open>itemP\<close> reads a first item, the
  parser for \<^verbatim>\<open>, item\<close> reads the others until it fails, and \<^verbatim>\<open>}\<close> follows; blanks
  after \<^verbatim>\<open>}\<close> are skipped.
\<close>

inductive object_items ::
  "(real \<Rightarrow> real) \<Rightarrow> nat \<Rightarrow> ParseState \<Rightarrow> (string \<times> JsonValue) list \<Rightarrow> ParseState \<Rightarrow> bool"
  for rnd :: "real \<Rightarrow> real" and n :: nat where
  no_item: "spaces s = Some (Success ws s0) \<Longrightarrow> charP CHR ''{'' s0 = Some (Success c s1)
    \<Longrightarrow> itemP rnd n s1 = Some (Failure u e)
    \<Longrightarrow> charP CHR ''}'' s1 = Some (Success c' t3) \<Longrightarrow> spaces t3 = Some (Success ws' t)
    \<Longrightarrow> object_items rnd n s [] t"
| items: "spaces s = Some (Success ws s0) \<Longrightarrow> charP CHR ''{'' s0 = Some (Success c s1)
    \<Longrightarrow> itemP rnd n s1 = Some (Success x t1)
    \<Longrightarrow> many_run (rightP (charP CHR '','') (itemP rnd n)) t1 xs t2
    \<Longrightarrow> charP CHR ''}'' t2 = Some (Success c' t3) \<Longrightarrow> spaces t3 = Some (Success ws' t)
    \<Longrightarrow> object_items rnd n s (x # xs) t"

section \<open>Properties of the primitives\<close>

lemma idP_char: "pos s < length (inp s) \<Longrightarrow>
  idP s = Some (Success (inp s ! pos s) (ParseState (pos s + 1) (inp s)))"
  by (simp add: idP_def)

text \<open>
  C1 (as amended).  When the character at \<open>s\<close> fails \<open>f\<close>, \<^verbatim>\<open>predP(f)\<close> returns a
  failure whose state is \<^verbatim>\<open>r.state\<close>, the state \<^verbatim>\<open>idP\<close> returned: the position is one past
  the offending character, the buffer is the same.
\<close>

theorem predP_failure_state:
  "pos s < length (inp s) \<Longrightarrow> \<not> f (inp s ! pos s) \<Longrightarrow>
   \<exists>e. predP f s = Some (Failure (ParseState (pos s + 1) (inp s)) e)"
  by (simp add: predP_def idP_char)

theorem predP_failure_state_witness:
  "\<exists>e. predP ((=) CHR ''b'') (ParseState 0 ''ab'') = Some (Failure (ParseState 1 ''ab'') e)"
  using predP_failure_state [of "ParseState 0 ''ab''" "(=) CHR ''b''"] by simp

text \<open>
  The claim as stated fails: on \<^verbatim>\<open>"ab"\<close> at position 0 the parser for \<^verbatim>\<open>'b'\<close> reports
  position 1, not the state it was called on.
\<close>

theorem predP_failure_state_counterexample:
  "predP ((=) CHR ''b'') (ParseState 0 ''ab'')
     = Some (Failure (ParseState 1 ''ab'') [''unexpect a''])
   \<and> ParseState 1 ''ab'' \<noteq> ParseState 0 ''ab''"
  by (simp add: predP_def idP_def)

text \<open>
  C7 (as amended).  When the character \<open>c\<close> at \<open>s\<close> fails \<open>f\<close>, the failure of
  \<^verbatim>\<open>predP(f)\<close> carries exactly one label, the text \<^verbatim>\<open>unexpect\<close>, a blank and \<open>c\<close>.
\<close>

theorem predP_failure_label:
  "pos s < length (inp s) \<Longrightarrow> \<not> f (inp s ! pos s) \<Longrightarrow>
   \<exists>st. predP f s = Some (Failure st [''unexpect '' @ [inp s ! pos s]])"
  by (simp add: predP_def idP_char)

theorem predP_failure_label_witness:
  "\<exists>st. predP ((=) CHR ''y'') (ParseState 0 ''x'') = Some (Failure st [''unexpect x''])"
  using predP_failure_label [of "ParseState 0 ''x''" "(=) CHR ''y''"] by simp

text \<open>The label is not \<^verbatim>\<open>unexpected x\<close>.\<close>

theorem predP_failure_label_counterexample:
  "predP ((=) CHR ''y'') (ParseState 0 ''x'')
     = Some (Failure (ParseState 1 ''x'') [''unexpect x''])
   \<and> [''unexpect x''] \<noteq> [''unexpected x'']"
  by (simp add: predP_def idP_def)

section \<open>Alternation\<close>

lemma orP_Cons_iff:
  "orP p (q # qs) s = Some r \<longleftrightarrow>
     (p s = Some r \<and> success r) \<or> ((\<exists>r'. p s = Some r' \<and> \<not> success r') \<and> orP q qs s = Some r)"
  by (cases "p s") auto

text \<open>
  C2.  \<^verbatim>\<open>orP(p, ps...)\<close> returns \<open>r\<close> exactly when some branch \<open>i\<close> returns \<open>r\<close> on the
  original state \<open>s\<close>, every branch before it has returned a failure on that same \<open>s\<close>,
  and \<open>r\<close> is a success or \<open>i\<close> is the last branch.  Nothing is asked of the branches
  after \<open>i\<close>: they are not run.
\<close>

theorem orP_first_success:
  "orP p ps s = Some r \<longleftrightarrow>
   (\<exists>i < length (p # ps).
      (\<forall>j < i. \<exists>r'. ((p # ps) ! j) s = Some r' \<and> \<not> success r') \<and>
      ((p # ps) ! i) s = Some r \<and> (success r \<or> i = length ps))"
proof (induction ps arbitrary: p)
  case Nil
  then show ?case by auto
next
  case (Cons q qs)
  let ?R = "\<lambda>p ps i. (\<forall>j < i. \<exists>r'. ((p # ps) ! j) s = Some r' \<and> \<not> success r') \<and>
      ((p # ps) ! i) s = Some r \<and> (success r \<or> i = length ps)"
  have zero: "?R p (q # qs) 0 \<longleftrightarrow> p s = Some r \<and> success r" by auto
  have suc: "?R p (q # qs) (Suc i) \<longleftrightarrow> (\<exists>r'. p s = Some r' \<and> \<not> success r') \<and> ?R q qs i" for i
    by (auto simp: All_less_Suc2)
  have "(\<exists>i < length (p # q # qs). ?R p (q # qs) i) \<longleftrightarrow>
        ?R p (q # qs) 0 \<or> (\<exists>i < length (q # qs). ?R p (q # qs) (Suc i))"
    by (subst Ex_less_Suc2 [symmetric]) simp
  also have "\<dots> \<longleftrightarrow> (p s = Some r \<and> success r) \<or>
        ((\<exists>r'. p s = Some r' \<and> \<not> success r') \<and> (\<exists>i < length (q # qs). ?R q qs i))"
    unfolding zero suc by blast
  also have "\<dots> \<longleftrightarrow> orP p (q # qs) s = Some r"
    unfolding orP_Cons_iff Cons.IH [symmetric] ..
  finally show ?case ..
qed

text \<open>
  On \<^verbatim>\<open>"b"\<close> the first branch fails, the second succeeds and is returned; the third
  would have succeeded with another value.
\<close>

theorem orP_first_success_witness:
  "orP (charP CHR ''a'') [charP CHR ''b'', pureP CHR ''z''] (ParseState 0 ''b'')
     = Some (Success CHR ''b'' (ParseState 1 ''b''))"
proof -
  let ?ps = "[charP CHR ''a'', charP CHR ''b'', pureP CHR ''z'']"
  let ?s = "ParseState 0 ''b''"
  have "1 < length ?ps \<and>
      (\<forall>j < 1. \<exists>r'. (?ps ! j) ?s = Some r' \<and> \<not> success r') \<and>
      (?ps ! 1) ?s = Some (Success CHR ''b'' (ParseState 1 ''b''))
      \<and> (success (Success CHR ''b'' (ParseState 1 ''b''))
          \<or> (1::nat) = length [charP CHR ''b'', pureP CHR ''z''])"
    by (simp add: charP_def predP_def idP_def)
  then show ?thesis
    unfolding orP_first_success by blast
qed

section \<open>Repetition\<close>

lemma manyP_stop: "p s = Some r \<Longrightarrow> \<not> success r \<Longrightarrow> manyP p s = Some (Success [] s)"
  by (subst manyP.simps) simp

lemma manyP_step:
  "p s = Some r \<Longrightarrow> success r \<Longrightarrow> manyP p (state r) = Some (Success xs t)
   \<Longrightarrow> manyP p s = Some (Success (result r # xs) t)"
  by (subst manyP.simps) simp

lemma manyP_Cons:
  "p s = Some (Success x s') \<Longrightarrow> manyP p s' = Some (Success xs t)
   \<Longrightarrow> manyP p s = Some (Success (x # xs) t)"
  using manyP_step [of p s "Success x s'" xs t] by simp

lemma many_run_manyP: "many_run p s xs t \<Longrightarrow> manyP p s = Some (Success xs t)"
  by (induction rule: many_run.induct) (auto intro: manyP_stop manyP_step)

lemma manyP_many_run:
  assumes "manyP p s = Some res"
  shows "\<exists>xs t. res = Success xs t \<and> many_run p s xs t"
proof (rule manyP.raw_induct [OF _ assms])
  fix manyP' :: "'a Parser \<Rightarrow> ParseState \<Rightarrow> 'a list ParseResult option" and p s res
  assume IH: "\<And>p s res. manyP' p s = Some res
      \<Longrightarrow> \<exists>xs t. res = Success xs t \<and> many_run p s xs t"
    and run: "p s \<bind> (\<lambda>r. if \<not> success r then Some (Success [] s)
            else manyP' p (state r) \<bind>
                 (\<lambda>rs. Some (Success (result r # result rs) (state rs)))) = Some res"
  from run obtain r where r: "p s = Some r" by (auto split: bind_splits)
  show "\<exists>xs t. res = Success xs t \<and> many_run p s xs t"
  proof (cases "success r")
    case False
    with run r show ?thesis by (auto intro: many_run.stop)
  next
    case True
    with run r obtain rs where rs: "manyP' p (state r) = Some rs"
      and res: "res = Success (result r # result rs) (state rs)"
      by (auto split: bind_splits)
    from IH [OF rs] obtain xs t where "rs = Success xs t" "many_run p (state r) xs t" by blast
    with r True res show ?thesis by (auto intro: many_run.step)
  qed
qed

text \<open>
  C3 (as amended).  \<^verbatim>\<open>manyP(p)\<close> returns from \<open>s\<close> exactly when \<open>p\<close> returns a failure
  after finitely many successes in a row; what it returns is then a success, with the
  values of those successes in order and the state on which the failing attempt was
  made (whatever state that failure reports).  When \<open>p\<close> fails at once, the list is
  empty and the state is \<open>s\<close> (rule \<open>stop\<close>).
\<close>

theorem manyP_collects:
  "manyP p s = Some res \<longleftrightarrow> (\<exists>xs t. res = Success xs t \<and> many_run p s xs t)"
  using many_run_manyP manyP_many_run by blast

theorem manyP_collects_witness:
  "many_run (charP CHR ''a'') (ParseState 0 ''aab'') ''aa'' (ParseState 2 ''aab'') \<and>
   manyP (charP CHR ''a'') (ParseState 0 ''aab'') = Some (Success ''aa'' (ParseState 2 ''aab''))"
proof -
  let ?p = "charP CHR ''a''"
  have 2: "many_run ?p (ParseState 2 ''aab'') [] (ParseState 2 ''aab'')"
    by (rule many_run.stop [where r = "Failure (ParseState 3 ''aab'') [''unexpect b'']"])
      (simp_all add: charP_def predP_def idP_def)
  have 1: "many_run ?p (ParseState 1 ''aab'') ''a'' (ParseState 2 ''aab'')"
    using many_run.step [of ?p "ParseState 1 ''aab''" "Success CHR ''a'' (ParseState 2 ''aab'')"
        "[]" "ParseState 2 ''aab''"] 2
    by (simp add: charP_def predP_def idP_def)
  have 0: "many_run ?p (ParseState 0 ''aab'') ''aa'' (ParseState 2 ''aab'')"
    using many_run.step [of ?p "ParseState 0 ''aab''" "Success CHR ''a'' (ParseState 1 ''aab'')"
        "''a''" "ParseState 2 ''aab''"] 1
    by (simp add: charP_def predP_def idP_def)
  with manyP_collects [of ?p "ParseState 0 ''aab''" "Success ''aa'' (ParseState 2 ''aab'')"]
  show ?thesis by blast
qed

lemma manyP_pureP_no_result:
  assumes "manyP q s = Some res"
  shows "q \<noteq> pureP x"
proof (rule manyP.raw_induct [OF _ assms])
  fix manyP' :: "'a Parser \<Rightarrow> ParseState \<Rightarrow> 'a list ParseResult option" and p s res
  assume IH: "\<And>p s res. manyP' p s = Some res \<Longrightarrow> p \<noteq> pureP x"
    and run: "p s \<bind> (\<lambda>r. if \<not> success r then Some (Success [] s)
            else manyP' p (state r) \<bind>
                 (\<lambda>rs. Some (Success (result r # result rs) (state rs)))) = Some res"
  show "p \<noteq> pureP x"
  proof
    assume "p = pureP x"
    with run obtain rs where "manyP' p s = Some rs"
      by (auto simp: pureP_def split: bind_splits)
    from IH [OF this] \<open>p = pureP x\<close> show False by simp
  qed
qed

text \<open>
  The claim as stated fails for a parser that succeeds without consuming input:
  \<^verbatim>\<open>manyP(pureP(true))\<close> never returns.
\<close>

theorem manyP_collects_counterexample: "manyP (pureP True) (ParseState 0 []) = None"
proof (cases "manyP (pureP True) (ParseState 0 [])")
  case None
  then show ?thesis .
next
  case (Some res)
  from manyP_pureP_no_result [OF this, of True] show ?thesis by simp
qed

section \<open>Numbers\<close>

lemma rnd_step:
  assumes "double_rounding rnd" "\<bar>x - a\<bar> \<le> d" "1 / 1024 \<le> \<bar>a\<bar> - d" "\<bar>a\<bar> + d \<le> m" "m \<le> 1024"
  shows "\<bar>rnd x - a\<bar> \<le> d + m * (1 / 2 ^ 53)"
proof -
  have lo: "1 / 1024 \<le> \<bar>x\<bar>" and hi: "\<bar>x\<bar> \<le> m" using assms(2-4) by linarith+
  with assms(1,5) have "\<bar>rnd x - x\<bar> \<le> \<bar>x\<bar> / 2 ^ 53"
    unfolding double_rounding_def by (meson order_trans)
  also have "\<dots> \<le> m * (1 / 2 ^ 53)" using hi by (simp add: divide_right_mono)
  finally have "\<bar>rnd x - x\<bar> \<le> m * (1 / 2 ^ 53)" .
  with assms(2) show ?thesis by linarith
qed

lemma frac_25_close:
  assumes R: "double_rounding rnd"
  shows "\<bar>rnd (rnd (0 + rnd (2 * rnd (1 / 10))) + rnd (5 * rnd (rnd (1 / 10) / 10))) - 1 / 4\<bar>
           \<le> 16 * (1 / 2 ^ 53)"
proof -
  define u :: real where "u = 1 / 2 ^ 53"
  have u: "0 < u" "u \<le> 1 / 4096" by (simp_all add: u_def)
  note step = rnd_step [OF R, folded u_def]
  define b0 where "b0 = rnd (1 / 10)"
  define t1 where "t1 = rnd (2 * b0)"
  define a1 where "a1 = rnd (0 + t1)"
  define b1 where "b1 = rnd (b0 / 10)"
  define t2 where "t2 = rnd (5 * b1)"
  have b0: "\<bar>b0 - 1 / 10\<bar> \<le> u"
    unfolding b0_def using step [of "1 / 10" "1 / 10" 0 1] by simp
  have "\<bar>2 * b0 - 2 / 10\<bar> \<le> 2 * u" using b0 by linarith
  from step [OF this, of 1] u have t1: "\<bar>t1 - 2 / 10\<bar> \<le> 3 * u"
    unfolding t1_def by simp
  then have "\<bar>0 + t1 - 2 / 10\<bar> \<le> 3 * u" by simp
  from step [OF this, of 1] u have a1: "\<bar>a1 - 2 / 10\<bar> \<le> 4 * u"
    unfolding a1_def by simp
  have "\<bar>b0 / 10 - 1 / 100\<bar> \<le> u" using b0 by linarith
  from step [OF this, of 1] u have b1: "\<bar>b1 - 1 / 100\<bar> \<le> 2 * u"
    unfolding b1_def by simp
  have "\<bar>5 * b1 - 5 / 100\<bar> \<le> 10 * u" using b1 by linarith
  from step [OF this, of 1] u have t2: "\<bar>t2 - 5 / 100\<bar> \<le> 11 * u"
    unfolding t2_def by simp
  have "\<bar>a1 + t2 - 1 / 4\<bar> \<le> 15 * u" using a1 t2 by linarith
  from step [OF this, of 1] u have "\<bar>rnd (a1 + t2) - 1 / 4\<bar> \<le> 16 * u"
    by simp
  then show ?thesis
    unfolding a1_def t1_def t2_def b1_def b0_def u_def .
qed

lemma sum_close:
  assumes R: "double_rounding rnd" and y: "\<bar>y - 1 / 4\<bar> \<le> 16 * (1 / 2 ^ 53)"
  shows "\<bar>rnd (12 + y) - 49 / 4\<bar> \<le> 1 / 2 ^ 48" "\<bar>rnd (- 12 + y) - (- 47 / 4)\<bar> \<le> 1 / 2 ^ 48"
proof -
  define u :: real where "u = 1 / 2 ^ 53"
  have u: "0 < u" "u \<le> 1 / 4096" "1 / 2 ^ 48 = 32 * u" by (simp_all add: u_def)
  note step = rnd_step [OF R, folded u_def]
  have "\<bar>12 + y - 49 / 4\<bar> \<le> 16 * u" using y unfolding u_def by linarith
  from step [OF this, of 13] u show "\<bar>rnd (12 + y) - 49 / 4\<bar> \<le> 1 / 2 ^ 48"
    by simp
  have "\<bar>- 12 + y - (- 47 / 4)\<bar> \<le> 16 * u" using y unfolding u_def by linarith
  from step [OF this, of 12] u show "\<bar>rnd (- 12 + y) - (- 47 / 4)\<bar> \<le> 1 / 2 ^ 48"
    by simp
qed

lemma remaining_Cons:
  assumes "remaining s = c # r"
  shows "pos s < length (inp s)" "inp s ! pos s = c" "remaining (advance 1 s) = r"
    "wf_state (advance 1 s)"
proof -
  from assms have d: "drop (pos s) (inp s) = c # r" by (simp add: remaining_def)
  then show lt: "pos s < length (inp s)" by (cases "pos s < length (inp s)") auto
  from d show "inp s ! pos s = c" by (rule nth_via_drop)
  from d have "tl (drop (pos s) (inp s)) = r" by simp
  then show "remaining (advance 1 s) = r"
    by (simp add: remaining_def advance_def drop_Suc tl_drop)
  from lt show "wf_state (advance 1 s)" by (simp add: wf_state_def advance_def)
qed

lemma remaining_append:
  assumes "wf_state s" "remaining s = xs @ ys"
  shows "remaining (advance (length xs) s) = ys" "wf_state (advance (length xs) s)"
proof -
  from assms have d: "drop (pos s) (inp s) = xs @ ys" by (simp add: remaining_def)
  have "drop (pos s + length xs) (inp s) = drop (length xs) (drop (pos s) (inp s))"
    by (simp add: add.commute)
  with d show "remaining (advance (length xs) s) = ys"
    by (simp add: remaining_def advance_def)
  from d have "length (xs @ ys) = length (inp s) - pos s" by (metis length_drop)
  with assms(1) show "wf_state (advance (length xs) s)"
    by (simp add: wf_state_def advance_def)
qed

lemma remaining_Nil: "wf_state s \<Longrightarrow> remaining s = [] \<Longrightarrow> pos s = length (inp s)"
  by (simp add: wf_state_def remaining_def)

lemma advance_advance [simp]: "advance k (advance j s) = advance (j + k) s"
  by (simp add: advance_def add.assoc)

lemma advance_0 [simp]: "advance 0 s = s"
  by (simp add: advance_def)

lemma idP_Cons: "remaining s = c # r \<Longrightarrow> idP s = Some (Success c (advance 1 s))"
  using remaining_Cons [of s c r] by (simp add: idP_def advance_def)

lemma idP_Nil: "wf_state s \<Longrightarrow> remaining s = [] \<Longrightarrow> idP s = Some (Failure s [''end of file''])"
  using remaining_Nil [of s] by (simp add: idP_def)

lemma predP_Cons:
  "remaining s = c # r \<Longrightarrow> predP f s =
     Some (if f c then Success c (advance 1 s) else Failure (advance 1 s) [''unexpect '' @ [c]])"
  by (simp add: predP_def idP_Cons)

lemma predP_Nil:
  "wf_state s \<Longrightarrow> remaining s = [] \<Longrightarrow> predP f s = Some (Failure s [''end of file''])"
  by (simp add: predP_def idP_Nil)

lemma predP_stops:
  assumes "wf_state s" "remaining s = r" "r = [] \<or> \<not> f (hd r)"
  shows "\<exists>res. predP f s = Some res \<and> \<not> success res"
proof (cases r)
  case Nil
  with assms show ?thesis by (simp add: predP_Nil)
next
  case (Cons c r')
  with assms show ?thesis by (simp add: predP_Cons)
qed

lemma manyP_digits:
  assumes "\<forall>c \<in> set ds. is_digit c" "wf_state s" "remaining s = ds @ r" "r = [] \<or> \<not> is_digit (hd r)"
  shows "manyP digitP s = Some (Success (map digit_value ds) (advance (length ds) s))"
  using assms
proof (induction ds arbitrary: s)
  case Nil
  then obtain res where "predP is_digit s = Some res" "\<not> success res"
    using predP_stops [of s r is_digit] by auto
  then have "digitP s = Some (Failure (state res) (error res))"
    by (simp add: digitP_def mapP_def)
  from manyP_stop [of digitP s, OF this] show ?case by simp
next
  case (Cons c cs)
  from Cons.prems have rem: "remaining s = c # (cs @ r)" and c: "is_digit c" by simp_all
  then have d: "digitP s = Some (Success (digit_value c) (advance 1 s))"
    by (simp add: digitP_def mapP_def predP_Cons)
  have "manyP digitP (advance 1 s) = Some (Success (map digit_value cs) (advance (length cs) (advance 1 s)))"
    using Cons.prems remaining_Cons [OF rem] by (intro Cons.IH) simp_all
  from manyP_Cons [OF d this] show ?case by simp
qed

lemma someP_digits:
  assumes "ds \<noteq> []" "\<forall>c \<in> set ds. is_digit c" "wf_state s" "remaining s = ds @ r"
    "r = [] \<or> \<not> is_digit (hd r)"
  shows "someP digitP s = Some (Success (map digit_value ds) (advance (length ds) s))"
proof -
  from assms(1) obtain c cs where ds: "ds = c # cs" by (cases ds) auto
  with assms have rem: "remaining s = c # (cs @ r)" and c: "is_digit c" by simp_all
  then have d: "digitP s = Some (Success (digit_value c) (advance 1 s))"
    by (simp add: digitP_def mapP_def predP_Cons)
  have "manyP digitP (advance 1 s) = Some (Success (map digit_value cs) (advance (length cs) (advance 1 s)))"
    using assms ds remaining_Cons [OF rem] by (intro manyP_digits) simp_all
  with d show ?thesis by (simp add: someP_def andP_def ds)
qed

lemma natP_digits:
  assumes "ds \<noteq> []" "\<forall>c \<in> set ds. is_digit c" "wf_state s" "remaining s = ds @ r"
    "r = [] \<or> \<not> is_digit (hd r)"
  shows "natP s = Some (Success (digits_value (map digit_value ds)) (advance (length ds) s))"
  using someP_digits [OF assms] by (simp add: natP_def mapP_def)

lemma intP_minus_digits:
  assumes "ds \<noteq> []" "\<forall>c \<in> set ds. is_digit c" "remaining s = CHR ''-'' # ds @ r"
    "r = [] \<or> \<not> is_digit (hd r)"
  shows "intP s = Some (Success (- digits_value (map digit_value ds)) (advance (Suc (length ds)) s))"
proof -
  have "natP (advance 1 s) = Some (Success (digits_value (map digit_value ds))
      (advance (length ds) (advance 1 s)))"
    using assms remaining_Cons [OF assms(3)] by (intro natP_digits) simp_all
  then show ?thesis
    using assms(3) by (simp add: intP_def mapP_def rightP_def andP_def charP_def predP_Cons)
qed

lemma doubleP_minus_digits:
  assumes ds1: "ds1 \<noteq> []" "\<forall>c \<in> set ds1. is_digit c"
    and ds2: "ds2 \<noteq> []" "\<forall>c \<in> set ds2. is_digit c"
    and rem: "remaining s = CHR ''-'' # ds1 @ CHR ''.'' # ds2 @ r"
    and r: "r = [] \<or> \<not> is_digit (hd r)"
  shows "doubleP rnd s = Some (Success
           (rnd (to_double (- digits_value (map digit_value ds1))
                 + fracP rnd (map digit_value ds2)))
           (advance (length ds1 + length ds2 + 2) s))"
proof -
  have dot: "\<not> is_digit CHR ''.''" by (simp add: is_digit_def less_eq_char_def)
  let ?t = "advance (Suc (length ds1)) s"
  have i: "intP s = Some (Success (- digits_value (map digit_value ds1)) ?t)"
    using ds1 rem dot by (intro intP_minus_digits [where r = "CHR ''.'' # ds2 @ r"]) simp_all
  have "remaining (advance 1 s) = ds1 @ CHR ''.'' # ds2 @ r"
    using remaining_Cons(3) [OF rem] .
  have t: "remaining ?t = CHR ''.'' # ds2 @ r"
    using remaining_Cons [OF rem]
      remaining_append(1) [of "advance 1 s" ds1 "CHR ''.'' # ds2 @ r"] by simp
  have f: "someP digitP (advance 1 ?t) = Some (Success (map digit_value ds2)
      (advance (length ds2) (advance 1 ?t)))"
    using ds2 r remaining_Cons [OF t] by (intro someP_digits) simp_all
  show ?thesis
    using i t f by (simp add: doubleP_def andP_def rightP_def mapP_def charP_def predP_Cons add.commute)
qed


lemma frac_fold_exact:
  "foldl (\<lambda>(ans, base) i. (ans + to_double i * base, base / 10)) (a, b) ns =
     (a + (\<Sum>i<length ns. to_double (ns ! i) * b / 10 ^ i), b / 10 ^ length ns)"
proof (induction ns arbitrary: a b)
  case Nil
  then show ?case by simp
next
  case (Cons n ns)
  let ?f = "\<lambda>(ans, base) i. (ans + to_double i * base, base / 10)"
  have "foldl ?f (a, b) (n # ns) = foldl ?f (a + to_double n * b, b / 10) ns" by simp
  also have "\<dots> = (a + to_double n * b + (\<Sum>i<length ns. to_double (ns ! i) * (b / 10) / 10 ^ i),
      b / 10 / 10 ^ length ns)"
    by (rule Cons.IH)
  also have "\<dots> = (a + (\<Sum>i<length (n # ns). to_double ((n # ns) ! i) * b / 10 ^ i),
      b / 10 ^ length (n # ns))"
    by (simp add: sum.lessThan_Suc_shift add.assoc del: sum.lessThan_Suc)
  finally show ?case .
qed

lemma fracP_exact:
  "fracP (\<lambda>x. x) ns = (\<Sum>i<length ns. to_double (ns ! i) / 10 ^ (i + 1))"
proof -
  have "fracP (\<lambda>x. x) ns = (\<Sum>i<length ns. to_double (ns ! i) * (1 / 10) / 10 ^ i)"
    by (simp add: fracP_def frac_fold_exact)
  then show ?thesis by (simp add: field_simps)
qed

lemma to_double_digit:
  assumes "is_digit c"
  shows "0 \<le> to_double (digit_value c)" "to_double (digit_value c) \<le> 9"
proof -
  from assms have r: "48 \<le> (of_char c :: int)" "(of_char c :: int) \<le> 57"
    by (simp_all add: is_digit_def less_eq_char_def flip: of_nat_of_char [where ?'a = int])
  then have "signed_take_bit (LENGTH(32) - 1) (of_char c - 48 :: int) = of_char c - 48"
    by (intro signed_take_bit_int_eq_self) simp_all
  then have "sint (digit_value c) = of_char c - 48"
    unfolding digit_value_def by (simp only: sint_sbintrunc' of_char_Char) simp
  with r show "0 \<le> to_double (digit_value c)" "to_double (digit_value c) \<le> 9"
    by (simp_all add: to_double_def)
qed

lemma fracP_nonneg:
  assumes "\<forall>c \<in> set ds. is_digit c"
  shows "0 \<le> fracP (\<lambda>x. x) (map digit_value ds)"
  unfolding fracP_exact using assms by (auto intro!: sum_nonneg simp: to_double_digit)

lemma frac_fold_base:
  "snd (foldl (\<lambda>(ans, base) i. (rnd (ans + rnd (to_double i * base)), rnd (base / 10))) (a, b) ns)
     = ((\<lambda>b. rnd (b / 10)) ^^ length ns) b"
proof (induction ns arbitrary: a b)
  case Nil
  then show ?case by simp
next
  case (Cons n ns)
  have "((\<lambda>b. rnd (b / 10)) ^^ length ns) (rnd (b / 10)) =
      rnd (((\<lambda>b. rnd (b / 10)) ^^ length ns) b / 10)"
    using funpow_swap1 [of "\<lambda>b. rnd (b / 10)" "length ns" b] by simp
  with Cons.IH show ?case by simp
qed

lemma fracP_Nil: "fracP rnd [] = 0"
  by (simp add: fracP_def)

lemma fracP_snoc:
  "fracP rnd (ns @ [i]) =
     rnd (fracP rnd ns + rnd (to_double i * ((\<lambda>b. rnd (b / 10)) ^^ length ns) (rnd (1 / 10))))"
proof -
  let ?f = "\<lambda>(ans, base) i. (rnd (ans + rnd (to_double i * base)), rnd (base / 10))"
  obtain a b where ab: "foldl ?f (0, rnd (1 / 10)) ns = (a, b)" by (cases "foldl ?f (0, rnd (1 / 10)) ns")
  from frac_fold_base [of rnd 0 "rnd (1 / 10)" ns] ab
  have "b = ((\<lambda>b. rnd (b / 10)) ^^ length ns) (rnd (1 / 10))" by simp
  with ab show ?thesis by (simp add: fracP_def)
qed

lemma nines_sum: "(\<Sum>i<n. 9 / 10 ^ (i + 1)) = 1 - 1 / (10::real) ^ n"
  by (induction n) (simp_all add: field_simps)

lemma fracP_less_one:
  assumes "\<forall>c \<in> set ds. is_digit c"
  shows "fracP (\<lambda>x. x) (map digit_value ds) < 1"
proof -
  have "fracP (\<lambda>x. x) (map digit_value ds) \<le> (\<Sum>i<length ds. 9 / 10 ^ (i + 1))"
    unfolding fracP_exact using assms
    by (auto intro!: sum_mono divide_right_mono simp: to_double_digit)
  also have "\<dots> < 1" unfolding nines_sum by simp
  finally show ?thesis .
qed

lemma to_double_minus:
  "to_double (- n) = (if sint n = - (2 ^ 31) then to_double n else - to_double n)"
proof (cases "sint n = - (2 ^ 31)")
  case True
  then have "word_of_int (sint n) = (word_of_int (- (2 ^ 31)) :: int32)" by simp
  then have "n = word_of_int (- (2 ^ 31))" by simp
  then have "- n = n" by simp
  then have "to_double (- n) = to_double n" by (rule arg_cong)
  with True show ?thesis by (simp only: if_True refl)
next
  case False
  have "- (2 ^ 31) \<le> sint n" "sint n < 2 ^ 31"
    using sint_ge [of n] sint_lt [of n] by simp_all
  with False have "signed_take_bit (LENGTH(32) - 1) (- sint n) = - sint n"
    by (intro signed_take_bit_int_eq_self) simp_all
  then have "sint (- n) = - sint n" by (simp add: sint_word_ariths)
  with False show ?thesis by (simp add: to_double_def)
qed

lemma sign_on_integer_part_only:
  assumes "0 < f" "f < 1"
  shows "to_double (- n) + f \<noteq> - (to_double n + f)"
proof (cases "sint n = - (2 ^ 31)")
  case True
  then have "to_double (- n) = - (2 ^ 31)" "to_double n = - (2 ^ 31)"
    by (simp_all add: to_double_minus) (simp_all add: to_double_def)
  with assms show ?thesis by simp
next
  case False
  then have "to_double (- n) = - to_double n" by (simp add: to_double_minus)
  with assms show ?thesis by simp
qed


lemma digits_value_snoc: "digits_value (ns @ [i]) = digits_value ns * 10 + i"
  by (simp add: digits_value_def)

lemma sint_digit_value: "is_digit c \<Longrightarrow> sint (digit_value c) = of_char c - 48"
proof -
  assume "is_digit c"
  then have r: "48 \<le> (of_char c :: int)" "(of_char c :: int) \<le> 57"
    by (simp_all add: is_digit_def less_eq_char_def flip: of_nat_of_char [where ?'a = int])
  then have "signed_take_bit (LENGTH(32) - 1) (of_char c - 48 :: int) = of_char c - 48"
    by (intro signed_take_bit_int_eq_self) simp_all
  then show "sint (digit_value c) = of_char c - 48"
    unfolding digit_value_def by (simp only: sint_sbintrunc' of_char_Char) simp
qed



text \<open>
  C10.  On a minus sign, digits, a dot and digits, \<^verbatim>\<open>doubleP\<close> returns the rounded sum
  of the negated integer part and the fraction fold of the digits after the dot: the
  sign reaches the integer part only.  The integer part is the word read digit by
  digit (\<open>n \<cdot> 10 + d\<close>, a digit character having its decimal value).  The fraction fold
  starts from 0 and adds for the digit \<open>d\<close> at place \<open>k\<close> the rounded product of \<open>d\<close> and
  the \<open>k\<close> times divided \<open>0.1\<close>; in exact arithmetic it is the sum of the
  \<open>d\<^sub>i \<cdot> 10\<^sup>-\<^sup>i\<close>, at least 0 and less than 1, and the value returned is the negated
  integer part plus that sum.  A fraction strictly between 0 and 1 added to the negated
  integer part never gives the negation of the whole magnitude.  In exact arithmetic
  \<^verbatim>\<open>"-12.25"\<close> gives \<open>-11.75\<close> and \<^verbatim>\<open>"-12.5"\<close> gives \<open>-11.5\<close>; under any rounding with the
  relative error of binary64 the value on \<^verbatim>\<open>"-12.25"\<close> is within \<open>2\<^sup>-\<^sup>4\<^sup>8\<close> of \<open>-11.75\<close>, and so
  is not \<open>-12.25\<close>.
\<close>

theorem doubleP_negative_fraction:
  "(ds1 \<noteq> [] \<and> (\<forall>c \<in> set ds1. is_digit c) \<and> ds2 \<noteq> [] \<and> (\<forall>c \<in> set ds2. is_digit c) \<and>
    (r = [] \<or> \<not> is_digit (hd r)) \<longrightarrow>
    parse (doubleP rnd) (CHR ''-'' # ds1 @ CHR ''.'' # ds2 @ r) =
      Some (Success
        (rnd (to_double (- digits_value (map digit_value ds1)) + fracP rnd (map digit_value ds2)))
        (ParseState (length ds1 + length ds2 + 2) (CHR ''-'' # ds1 @ CHR ''.'' # ds2 @ r)))) \<and>
   (ds1 \<noteq> [] \<and> (\<forall>c \<in> set ds1. is_digit c) \<and> ds2 \<noteq> [] \<and> (\<forall>c \<in> set ds2. is_digit c) \<and>
    (r = [] \<or> \<not> is_digit (hd r)) \<longrightarrow>
    parse (doubleP (\<lambda>x. x)) (CHR ''-'' # ds1 @ CHR ''.'' # ds2 @ r) =
      Some (Success
        (to_double (- digits_value (map digit_value ds1))
           + (\<Sum>i<length ds2. to_double (digit_value (ds2 ! i)) / 10 ^ (i + 1)))
        (ParseState (length ds1 + length ds2 + 2) (CHR ''-'' # ds1 @ CHR ''.'' # ds2 @ r)))) \<and>
   fracP rnd [] = 0 \<and>
   fracP rnd (ns @ [i]) =
     rnd (fracP rnd ns + rnd (to_double i * ((\<lambda>b. rnd (b / 10)) ^^ length ns) (rnd (1 / 10)))) \<and>
   fracP (\<lambda>x. x) ns = (\<Sum>i<length ns. to_double (ns ! i) / 10 ^ (i + 1)) \<and>
   digits_value [] = 0 \<and>
   digits_value (ns @ [i]) = digits_value ns * 10 + i \<and>
   (is_digit c \<longrightarrow> sint (digit_value c) = of_char c - 48) \<and>
   ((\<forall>c \<in> set ds2. is_digit c) \<longrightarrow> 0 \<le> fracP (\<lambda>x. x) (map digit_value ds2)) \<and>
   ((\<forall>c \<in> set ds2. is_digit c) \<longrightarrow> fracP (\<lambda>x. x) (map digit_value ds2) < 1) \<and>
   (0 < f \<and> f < 1 \<longrightarrow> to_double (- n) + f \<noteq> - (to_double n + f)) \<and>
   parse (doubleP (\<lambda>x. x)) ''-12.25'' = Some (Success (- 47 / 4) (ParseState 6 ''-12.25'')) \<and>
   parse (doubleP (\<lambda>x. x)) ''-12.5'' = Some (Success (- 23 / 2) (ParseState 5 ''-12.5'')) \<and>
   (double_rounding rnd \<longrightarrow>
      (\<exists>v. parse (doubleP rnd) ''-12.25'' = Some (Success v (ParseState 6 ''-12.25'')) \<and>
           \<bar>v - (- 47 / 4)\<bar> \<le> 1 / 2 ^ 48 \<and> v \<noteq> - 49 / 4))"
  (is "?G \<and> ?E \<and> _ \<and> _ \<and> _ \<and> _ \<and> _ \<and> _ \<and> _ \<and> _ \<and> _ \<and> _ \<and> _ \<and> ?T")
proof -
  have general: "parse (doubleP rnd) (CHR ''-'' # ds1 @ CHR ''.'' # ds2 @ r) =
      Some (Success
        (rnd (to_double (- digits_value (map digit_value ds1)) + fracP rnd (map digit_value ds2)))
        (ParseState (length ds1 + length ds2 + 2) (CHR ''-'' # ds1 @ CHR ''.'' # ds2 @ r)))"
    if a: "ds1 \<noteq> [] \<and> (\<forall>c \<in> set ds1. is_digit c) \<and> ds2 \<noteq> [] \<and> (\<forall>c \<in> set ds2. is_digit c) \<and>
      (r = [] \<or> \<not> is_digit (hd r))" for rnd ds1 ds2 r
  proof -
    let ?w = "CHR ''-'' # ds1 @ CHR ''.'' # ds2 @ r"
    have rem: "remaining (ParseState 0 ?w) = ?w" by (simp add: remaining_def)
    from a have a1: "ds1 \<noteq> []" and a2: "\<forall>c \<in> set ds1. is_digit c" and a3: "ds2 \<noteq> []"
      and a4: "\<forall>c \<in> set ds2. is_digit c" and a5: "r = [] \<or> \<not> is_digit (hd r)"
      by blast+
    from doubleP_minus_digits [OF a1 a2 a3 a4 rem a5]
    have "doubleP rnd (ParseState 0 ?w) = Some (Success
          (rnd (to_double (- digits_value (map digit_value ds1)) + fracP rnd (map digit_value ds2)))
          (advance (length ds1 + length ds2 + 2) (ParseState 0 ?w)))" .
    then show ?thesis by (simp add: parse_def advance_def)
  qed
  have exact: "parse (doubleP (\<lambda>x. x)) (CHR ''-'' # ds1 @ CHR ''.'' # ds2 @ r) =
      Some (Success
        (to_double (- digits_value (map digit_value ds1))
           + (\<Sum>i<length ds2. to_double (digit_value (ds2 ! i)) / 10 ^ (i + 1)))
        (ParseState (length ds1 + length ds2 + 2) (CHR ''-'' # ds1 @ CHR ''.'' # ds2 @ r)))"
    if a: "ds1 \<noteq> [] \<and> (\<forall>c \<in> set ds1. is_digit c) \<and> ds2 \<noteq> [] \<and> (\<forall>c \<in> set ds2. is_digit c) \<and>
      (r = [] \<or> \<not> is_digit (hd r))" for ds1 ds2 r
    using general [OF a, of "\<lambda>x. x"] by (simp add: fracP_exact)
  have d: "''12'' \<noteq> [] \<and> (\<forall>c \<in> set ''12''. is_digit c) \<and> ''25'' \<noteq> [] \<and>
      (\<forall>c \<in> set ''25''. is_digit c) \<and> ([] = [] \<or> \<not> is_digit (hd []))"
    by (simp add: is_digit_def less_eq_char_def)
  have d': "''12'' \<noteq> [] \<and> (\<forall>c \<in> set ''12''. is_digit c) \<and> ''5'' \<noteq> [] \<and>
      (\<forall>c \<in> set ''5''. is_digit c) \<and> ([] = [] \<or> \<not> is_digit (hd []))"
    by (simp add: is_digit_def less_eq_char_def)
  have e1: "parse (doubleP (\<lambda>x. x)) ''-12.25'' = Some (Success (- 47 / 4) (ParseState 6 ''-12.25''))"
    using general [OF d, of "\<lambda>x. x"]
    by (simp add: to_double_def digits_value_def digit_value_def fracP_def)
  have e2: "parse (doubleP (\<lambda>x. x)) ''-12.5'' = Some (Success (- 23 / 2) (ParseState 5 ''-12.5''))"
    using general [OF d', of "\<lambda>x. x"]
    by (simp add: to_double_def digits_value_def digit_value_def fracP_def)
  have tol: "\<exists>v. parse (doubleP rnd) ''-12.25'' = Some (Success v (ParseState 6 ''-12.25'')) \<and>
           \<bar>v - (- 47 / 4)\<bar> \<le> 1 / 2 ^ 48 \<and> v \<noteq> - 49 / 4" if R: "double_rounding rnd"
  proof -
    let ?v = "rnd (- 12 + rnd (rnd (0 + rnd (2 * rnd (1 / 10))) + rnd (5 * rnd (rnd (1 / 10) / 10))))"
    have p: "parse (doubleP rnd) ''-12.25'' = Some (Success ?v (ParseState 6 ''-12.25''))"
      by code_simp
    have c: "\<bar>?v - (- 47 / 4)\<bar> \<le> 1 / 2 ^ 48"
      using sum_close(2) [OF R frac_25_close [OF R]] by simp
    have "(1::real) / 2 ^ 48 < 1 / 2" by simp
    with c have "?v \<noteq> - 49 / 4" by linarith
    with p c show ?thesis by blast
  qed
  have sgn: "0 < f \<and> f < 1 \<longrightarrow> to_double (- n) + f \<noteq> - (to_double n + f)"
    using sign_on_integer_part_only [of f n] by blast
  have dv0: "digits_value [] = 0" by (simp add: digits_value_def)
  have dv: "is_digit c \<longrightarrow> sint (digit_value c) = of_char c - 48"
    using sint_digit_value [of c] by blast
  have f0: "(\<forall>c \<in> set ds2. is_digit c) \<longrightarrow> 0 \<le> fracP (\<lambda>x. x) (map digit_value ds2)"
    using fracP_nonneg [of ds2] by blast
  have f1: "(\<forall>c \<in> set ds2. is_digit c) \<longrightarrow> fracP (\<lambda>x. x) (map digit_value ds2) < 1"
    using fracP_less_one [of ds2] by blast
  have g: ?G by (rule impI) (rule general)
  have e: ?E by (rule impI) (rule exact)
  have t: ?T by (rule impI) (rule tol)
  show ?thesis
    by (intro conjI g e fracP_Nil fracP_snoc fracP_exact dv0 digits_value_snoc dv f0 f1 sgn e1 e2 t)
qed

text \<open>
  The theorem at \<^verbatim>\<open>"-12.25"\<close> in exact arithmetic, at the digit \<^verbatim>\<open>5\<close>, and at the
  fraction \<open>1/4\<close> beside the integer part 12.
\<close>

theorem doubleP_negative_fraction_witness:
  "parse (doubleP (\<lambda>x. x)) ''-12.25'' = Some (Success (- 47 / 4) (ParseState 6 ''-12.25'')) \<and>
   double_rounding (\<lambda>x. x) \<and>
   (\<exists>v. parse (doubleP (\<lambda>x. x)) ''-12.25'' = Some (Success v (ParseState 6 ''-12.25'')) \<and>
           \<bar>v - (- 47 / 4)\<bar> \<le> 1 / 2 ^ 48 \<and> v \<noteq> - 49 / 4) \<and>
   is_digit CHR ''5'' \<and> sint (digit_value CHR ''5'') = 5 \<and>
   0 \<le> fracP (\<lambda>x. x) (map digit_value ''25'') \<and> fracP (\<lambda>x. x) (map digit_value ''25'') < 1 \<and>
   to_double (- 12) + 1 / 4 \<noteq> - (to_double 12 + 1 / 4)"
proof -
  have r: "double_rounding (\<lambda>x. x)" by (simp add: double_rounding_def)
  have d: "''12'' \<noteq> [] \<and> (\<forall>c \<in> set ''12''. is_digit c) \<and> ''25'' \<noteq> [] \<and>
      (\<forall>c \<in> set ''25''. is_digit c) \<and> ([] = [] \<or> \<not> is_digit (hd []))"
    by (simp add: is_digit_def less_eq_char_def)
  have v: "to_double (- digits_value (map digit_value ''12'')) + fracP (\<lambda>x. x) (map digit_value ''25'')
      = - 47 / 4"
    by (simp add: to_double_def digits_value_def digit_value_def fracP_def)
  have c: "is_digit CHR ''5''" by (simp add: is_digit_def less_eq_char_def)
  have q: "(0::real) < 1 / 4 \<and> (1::real) / 4 < 1" by simp
  note X' = doubleP_negative_fraction [of "''12''" "''25''" "[]" "\<lambda>x. x" "[]" 0 "CHR ''5''" "1 / 4" 12]
  from X' have 1: "parse (doubleP (\<lambda>x. x)) ''-12.25'' = Some (Success (- 47 / 4) (ParseState 6 ''-12.25''))"
    by blast
  from X' r have 2: "\<exists>v. parse (doubleP (\<lambda>x. x)) ''-12.25'' = Some (Success v (ParseState 6 ''-12.25'')) \<and>
           \<bar>v - (- 47 / 4)\<bar> \<le> 1 / 2 ^ 48 \<and> v \<noteq> - 49 / 4"
    by blast
  from X' c have "sint (digit_value CHR ''5'') = of_char CHR ''5'' - 48" by blast
  then have 3: "sint (digit_value CHR ''5'') = 5" by simp
  from X' d have 4: "0 \<le> fracP (\<lambda>x. x) (map digit_value ''25'')"
    and 5: "fracP (\<lambda>x. x) (map digit_value ''25'') < 1" by blast+
  from X' q have 6: "to_double (- 12) + 1 / 4 \<noteq> - (to_double 12 + 1 / 4)" by blast
  from 1 r 2 c 3 4 5 6 show ?thesis by blast
qed

section \<open>The position stays inside the input\<close>

lemma in_boundsI:
  "(\<And>s r. wf_state s \<Longrightarrow> p s = Some r \<Longrightarrow> wf_state (state r) \<and> inp (state r) = inp s)
   \<Longrightarrow> in_bounds p"
  unfolding in_bounds_def by blast

lemma in_boundsD:
  "in_bounds p \<Longrightarrow> wf_state s \<Longrightarrow> p s = Some r \<Longrightarrow> wf_state (state r) \<and> inp (state r) = inp s"
  by (simp add: in_bounds_def)

lemma in_bounds_idP: "in_bounds idP"
  by (rule in_boundsI) (auto simp: idP_def wf_state_def split: if_splits)

lemma in_bounds_eofP: "in_bounds eofP"
  by (rule in_boundsI) (auto simp: eofP_def split: if_splits)

lemma in_bounds_pureP: "in_bounds (pureP x)"
  by (rule in_boundsI) (auto simp: pureP_def)

lemma in_bounds_predP: "in_bounds (predP f)"
proof (rule in_boundsI)
  fix s r assume s: "wf_state s" and r: "predP f s = Some r"
  then obtain r0 where r0: "idP s = Some r0" and "state r = state r0"
    by (auto simp: predP_def split: bind_splits if_splits)
  with in_boundsD [OF in_bounds_idP s r0]
  show "wf_state (state r) \<and> inp (state r) = inp s" by simp
qed

lemma in_bounds_charP: "in_bounds (charP c)"
  by (simp add: charP_def in_bounds_predP)

lemma in_bounds_oneOfP: "in_bounds (oneOfP cs)"
  by (simp add: oneOfP_def in_bounds_predP)

lemma in_bounds_mapP: "in_bounds p \<Longrightarrow> in_bounds (mapP p f)"
  by (rule in_boundsI) (auto simp: mapP_def dest: in_boundsD split: bind_splits if_splits)

lemma in_bounds_andP:
  assumes "in_bounds pa" "in_bounds pb"
  shows "in_bounds (andP pa pb f)"
proof (rule in_boundsI)
  fix s r assume s: "wf_state s" and r: "andP pa pb f s = Some r"
  from r obtain ra where ra: "pa s = Some ra"
    by (auto simp: andP_def split: bind_splits)
  note a = in_boundsD [OF assms(1) s ra]
  show "wf_state (state r) \<and> inp (state r) = inp s"
  proof (cases "success ra")
    case False
    with r ra a show ?thesis by (auto simp: andP_def)
  next
    case True
    with r ra obtain rb where rb: "pb (state ra) = Some rb" and "state r = state rb"
      by (auto simp: andP_def split: bind_splits if_splits)
    with in_boundsD [OF assms(2) _ rb] a show ?thesis by simp
  qed
qed

lemma in_bounds_leftP: "in_bounds pa \<Longrightarrow> in_bounds pb \<Longrightarrow> in_bounds (leftP pa pb)"
  by (simp add: leftP_def in_bounds_andP)

lemma in_bounds_rightP: "in_bounds pa \<Longrightarrow> in_bounds pb \<Longrightarrow> in_bounds (rightP pa pb)"
  by (simp add: rightP_def in_bounds_andP)

lemma in_bounds_orP: "in_bounds p \<Longrightarrow> list_all in_bounds ps \<Longrightarrow> in_bounds (orP p ps)"
proof (induction ps arbitrary: p)
  case Nil
  then show ?case by simp
next
  case (Cons q qs)
  then have q: "in_bounds (orP q qs)" by simp
  show ?case
  proof (rule in_boundsI)
    fix s r assume s: "wf_state s" and r: "orP p (q # qs) s = Some r"
    then consider "p s = Some r" | "orP q qs s = Some r"
      by (auto split: bind_splits if_splits)
    then show "wf_state (state r) \<and> inp (state r) = inp s"
      using in_boundsD [OF Cons.prems(1) s] in_boundsD [OF q s] by cases auto
  qed
qed

lemma many_run_in_bounds:
  "many_run p s xs t \<Longrightarrow> in_bounds p \<Longrightarrow> wf_state s \<Longrightarrow> wf_state t \<and> inp t = inp s"
proof (induction rule: many_run.induct)
  case (stop s r)
  then show ?case by simp
next
  case (step s r xs t)
  from in_boundsD [OF step.prems(1,2) step.hyps(1)] step.IH step.prems(1)
  show ?case by simp
qed

lemma in_bounds_manyP: "in_bounds p \<Longrightarrow> in_bounds (manyP p)"
proof (rule in_boundsI)
  fix s r assume p: "in_bounds p" and s: "wf_state s" and r: "manyP p s = Some r"
  from manyP_many_run [OF r] obtain xs t where "r = Success xs t" "many_run p s xs t" by blast
  with many_run_in_bounds [OF _ p s] show "wf_state (state r) \<and> inp (state r) = inp s" by simp
qed

lemma in_bounds_someP: "in_bounds p \<Longrightarrow> in_bounds (someP p)"
  by (simp add: someP_def in_bounds_andP in_bounds_manyP)

lemma in_bounds_betweenP:
  "in_bounds lp \<Longrightarrow> in_bounds rp \<Longrightarrow> in_bounds p \<Longrightarrow> in_bounds (betweenP lp rp p)"
  by (simp add: betweenP_def in_bounds_rightP in_bounds_leftP)

lemma in_bounds_spaces: "in_bounds spaces"
  by (simp add: spaces_def space_def in_bounds_manyP in_bounds_oneOfP)

lemma in_bounds_trimP: "in_bounds p \<Longrightarrow> in_bounds (trimP p)"
  by (simp add: trimP_def in_bounds_rightP in_bounds_leftP in_bounds_spaces)

lemma in_bounds_lazyP: "in_bounds (f ()) \<Longrightarrow> in_bounds (lazyP f)"
  by (simp add: lazyP_def in_bounds_def)

lemma in_bounds_stringP: "in_bounds (stringP str)"
proof (induction str)
  case Nil
  then show ?case by (simp add: in_bounds_def)
next
  case (Cons c cs)
  show ?case
  proof (rule in_boundsI)
    fix s r assume s: "wf_state s" and r: "stringP (c # cs) s = Some r"
    from r obtain rc where rc: "charP c s = Some rc"
      by (auto split: bind_splits)
    note a = in_boundsD [OF in_bounds_charP s rc]
    show "wf_state (state r) \<and> inp (state r) = inp s"
    proof (cases "success rc")
      case False
      with r rc a show ?thesis by auto
    next
      case True
      with r rc obtain rs where rs: "stringP cs (state rc) = Some rs" and "state r = state rs"
        by (auto split: bind_splits if_splits)
      with in_boundsD [OF Cons.IH _ rs] a show ?thesis by simp
    qed
  qed
qed

lemmas in_bounds_intros = in_bounds_idP in_bounds_eofP in_bounds_pureP in_bounds_predP
  in_bounds_charP in_bounds_oneOfP in_bounds_mapP in_bounds_andP in_bounds_leftP
  in_bounds_rightP in_bounds_manyP in_bounds_someP in_bounds_betweenP in_bounds_spaces
  in_bounds_trimP in_bounds_lazyP in_bounds_stringP

lemma in_bounds_digitP: "in_bounds digitP"
  by (simp add: digitP_def in_bounds_intros del: orP.simps stringP.simps)

lemma in_bounds_natP: "in_bounds natP"
  by (simp add: natP_def in_bounds_digitP in_bounds_intros del: orP.simps stringP.simps)

lemma in_bounds_intP: "in_bounds intP"
  by (simp add: intP_def in_bounds_natP in_bounds_orP in_bounds_intros del: orP.simps stringP.simps)

lemma in_bounds_doubleP: "in_bounds (doubleP rnd)"
  by (simp add: doubleP_def in_bounds_intP in_bounds_digitP in_bounds_orP in_bounds_intros del: orP.simps stringP.simps)

lemma in_bounds_nullP: "in_bounds nullP"
  by (simp add: nullP_def in_bounds_intros del: orP.simps stringP.simps)

lemma in_bounds_boolP: "in_bounds boolP"
  by (simp add: boolP_def in_bounds_orP in_bounds_intros del: orP.simps stringP.simps)

lemma in_bounds_numP: "in_bounds (numP rnd)"
  by (simp add: numP_def in_bounds_doubleP in_bounds_intros del: orP.simps stringP.simps)

lemma in_bounds_escapeStrP: "in_bounds escapeStrP"
  by (simp add: escapeStrP_def escapeP_def in_bounds_orP in_bounds_intros del: orP.simps stringP.simps)

lemma in_bounds_strP: "in_bounds strP"
  by (simp add: strP_def in_bounds_escapeStrP in_bounds_intros del: orP.simps stringP.simps)

lemma in_bounds_json:
  "in_bounds (jsonP rnd n) \<and> in_bounds (arrayP rnd n) \<and> in_bounds (itemP rnd n)
   \<and> in_bounds (objectP rnd n)"
proof (induction n)
  case 0
  have j: "in_bounds (jsonP rnd 0)" by (simp add: in_bounds_def)
  then show ?case
    by (simp add: in_bounds_orP in_bounds_escapeStrP in_bounds_intros del: orP.simps stringP.simps)
next
  case (Suc n)
  then have j: "in_bounds (jsonP rnd (Suc n))"
    by (simp add: in_bounds_orP in_bounds_nullP in_bounds_boolP in_bounds_numP in_bounds_strP
        in_bounds_intros del: orP.simps stringP.simps)
  then show ?case
    by (simp add: in_bounds_orP in_bounds_escapeStrP in_bounds_intros del: jsonP.simps orP.simps stringP.simps)
qed

text \<open>
  C8.  Every result of \<^verbatim>\<open>parse\<close> with a parser that keeps states in bounds has its
  position between 0 and the length of the input (first conjunct).  The primitives keep
  states in bounds, every combinator does when its arguments do, and so do the number
  parsers and the JSON grammar built from them.
\<close>

theorem position_in_bounds:
  "(in_bounds p \<and> parse p str = Some r \<longrightarrow> pos (state r) \<le> length str \<and> inp (state r) = str) \<and>
   (in_bounds p \<and> list_all in_bounds ps \<longrightarrow> in_bounds (orP p ps)) \<and>
   (in_bounds p \<longrightarrow>
      in_bounds (mapP p g) \<and> in_bounds (manyP p) \<and> in_bounds (someP p) \<and> in_bounds (trimP p)) \<and>
   (in_bounds pa \<and> in_bounds pb \<longrightarrow>
      in_bounds (andP pa pb h) \<and> in_bounds (leftP pa pb) \<and> in_bounds (rightP pa pb)) \<and>
   (in_bounds lp \<and> in_bounds rp \<and> in_bounds p \<longrightarrow> in_bounds (betweenP lp rp p)) \<and>
   (in_bounds (th ()) \<longrightarrow> in_bounds (lazyP th)) \<and>
   in_bounds idP \<and> in_bounds eofP \<and> in_bounds (predP f) \<and> in_bounds (charP c) \<and>
   in_bounds (oneOfP cs) \<and> in_bounds (stringP str) \<and> in_bounds (pureP x) \<and>
   in_bounds space \<and> in_bounds spaces \<and> in_bounds digitP \<and> in_bounds natP \<and> in_bounds intP \<and>
   in_bounds (doubleP rnd) \<and> in_bounds nullP \<and> in_bounds boolP \<and> in_bounds (numP rnd) \<and>
   in_bounds escapeP \<and> in_bounds escapeStrP \<and> in_bounds strP \<and>
   in_bounds (jsonP rnd n) \<and> in_bounds (arrayP rnd n) \<and> in_bounds (objectP rnd n)"
proof (intro conjI impI; (elim conjE)?)
  assume "in_bounds p" and "parse p str = Some r"
  from in_boundsD [OF this(1), of "ParseState 0 str" r] this(2)
  have "wf_state (state r) \<and> inp (state r) = str"
    by (auto simp: parse_def wf_state_def)
  then show "pos (state r) \<le> length str" and "inp (state r) = str"
    by (auto simp: wf_state_def)
qed (simp_all only: space_def escapeP_def in_bounds_intros in_bounds_orP in_bounds_digitP
    in_bounds_natP in_bounds_intP in_bounds_doubleP in_bounds_nullP in_bounds_boolP
    in_bounds_numP in_bounds_escapeStrP in_bounds_strP in_bounds_json)

text \<open>
  The alternative of two character parsers on \<^verbatim>\<open>"c"\<close>: the failure reports position 1,
  the length of the input.
\<close>

theorem position_in_bounds_witness:
  "in_bounds (charP CHR ''a'') \<and> list_all in_bounds [charP CHR ''b''] \<and>
   parse (orP (charP CHR ''a'') [charP CHR ''b'']) ''c''
     = Some (Failure (ParseState 1 ''c'') [''unexpect c'']) \<and>
   pos (state (Failure (ParseState 1 ''c'') [''unexpect c''] :: char ParseResult)) \<le> length ''c'' \<and>
   wf_state (ParseState 0 ''c'')"
proof -
  let ?p = "orP (charP CHR ''a'') [charP CHR ''b'']"
  let ?r = "Failure (ParseState 1 ''c'') [''unexpect c''] :: char ParseResult"
  note charP = position_in_bounds [THEN conjunct2, THEN conjunct2, THEN conjunct2,
      THEN conjunct2, THEN conjunct2, THEN conjunct2, THEN conjunct2, THEN conjunct2,
      THEN conjunct2, THEN conjunct1]
  have a: "in_bounds (charP CHR ''a'')"
    by (rule charP)
  have b: "list_all in_bounds [charP CHR ''b'']"
    using charP [of "CHR ''b''"] by simp
  from a b have o: "in_bounds ?p"
    using position_in_bounds [where p = "charP CHR ''a''" and ps = "[charP CHR ''b'']",
        THEN conjunct2, THEN conjunct1]
    by simp
  have r: "parse ?p ''c'' = Some ?r"
    by code_simp
  from position_in_bounds [where p = ?p and str = "''c''" and r = ?r,
      THEN conjunct1, THEN mp, OF conjI, OF o r]
  have "pos (state ?r) \<le> length ''c''"
    by (rule conjunct1)
  with a b r show ?thesis by (simp add: wf_state_def)
qed

section \<open>Objects as key-sorted maps\<close>

lemma map_of_map_assign: "map_of (map_assign k v m) = (map_of m)(k \<mapsto> v)"
  by (induction m) (auto simp: fun_eq_iff)

lemma keys_map_assign: "set (map fst (map_assign k v m)) = insert k (set (map fst m))"
proof -
  have "set (map fst (map_assign k v m)) = dom (map_of (map_assign k v m))"
    by (simp add: dom_map_of_conv_image_fst)
  also have "\<dots> = insert k (dom (map_of m))"
    by (simp add: map_of_map_assign)
  finally show ?thesis
    by (simp add: dom_map_of_conv_image_fst)
qed

lemma sorted_map_assign:
  "sorted_wrt (<) (map fst m) \<Longrightarrow> sorted_wrt (<) (map fst (map_assign k v m))"
proof (induction m)
  case Nil
  then show ?case by simp
next
  case (Cons a m)
  obtain k' v' where a: "a = (k', v')" by (cases a)
  from Cons.prems a have m: "sorted_wrt (<) (map fst m)" and k': "\<forall>x \<in> set (map fst m). k' < x"
    by simp_all
  show ?case
  proof (cases "k < k'")
    case True
    with Cons.prems a k' show ?thesis by (auto intro: less_trans)
  next
    case False
    show ?thesis
    proof (cases "k = k'")
      case True
      with Cons.prems a show ?thesis by simp
    next
      case ne: False
      with False have "k' < k" by simp
      with a False ne Cons.IH [OF m] k' show ?thesis
        by (simp add: keys_map_assign del: set_map)
    qed
  qed
qed

lemma foldl_map_assign:
  "map_of (foldl (\<lambda>m i. map_assign (fst i) (snd i) m) m xs) = map_of m ++ map_of (rev xs)"
  by (induction xs arbitrary: m) (simp_all add: map_of_map_assign map_add_assoc)

lemma sorted_foldl_map_assign:
  "sorted_wrt (<) (map fst m) \<Longrightarrow>
   sorted_wrt (<) (map fst (foldl (\<lambda>m i. map_assign (fst i) (snd i) m) m xs))"
  by (induction xs arbitrary: m) (simp_all add: sorted_map_assign)

lemma map_of_to_map: "map_of (to_map xs) = map_of (rev xs)"
  by (simp add: to_map_def foldl_map_assign)

lemma sorted_to_map: "sorted_wrt (<) (map fst (to_map xs))"
  by (simp add: to_map_def sorted_foldl_map_assign)

lemma sorted_map_of_unique:
  assumes "sorted_wrt (<) (map fst a)" "sorted_wrt (<) (map fst b)" "map_of a = map_of b"
  shows "a = (b :: (string \<times> 'v) list)"
  using assms
proof (induction a arbitrary: b)
  case Nil
  from Nil.prems(3) have "map_of b = Map.empty" by simp
  then show ?case by (simp only: map_of_eq_empty_iff)
next
  case (Cons x a)
  obtain k v where x: "x = (k, v)" by (cases x)
  have "map_of b \<noteq> Map.empty"
    unfolding Cons.prems(3) [symmetric] by (simp only: map_of_eq_empty_iff) simp
  then have "b \<noteq> []" by auto
  then obtain y b' where b: "b = y # b'" by (cases b) auto
  obtain k' v' where y: "y = (k', v')" by (cases y)
  from Cons.prems x b y have ka: "\<forall>z \<in> set (map fst a). k < z" and kb: "\<forall>z \<in> set (map fst b'). k' < z"
    by simp_all
  have "fst ` set (x # a) = fst ` set b"
    using arg_cong [OF Cons.prems(3), of dom] by (simp only: dom_map_of_conv_image_fst)
  with x b y have dom: "insert k (set (map fst a)) = insert k' (set (map fst b'))"
    by simp
  have "k = k'"
  proof (rule ccontr)
    assume ne: "k \<noteq> k'"
    with dom have "k \<in> set (map fst b')" "k' \<in> set (map fst a)" by auto
    with ka kb have "k' < k" "k < k'" by auto
    then show False by simp
  qed
  moreover from Cons.prems(3) x b y \<open>k = k'\<close> have "v = v'"
    by (auto simp: fun_eq_iff split: if_splits)
  moreover have "map_of a = map_of b'"
  proof
    fix z
    show "map_of a z = map_of b' z"
    proof (cases "z = k")
      case True
      with ka kb \<open>k = k'\<close> have "z \<notin> fst ` set a" "z \<notin> fst ` set b'" by auto
      then have "map_of a z = None" "map_of b' z = None"
        by (simp_all add: map_of_eq_None_iff)
      then show ?thesis by simp
    next
      case False
      with fun_cong [OF Cons.prems(3), of z] x b y \<open>k = k'\<close> show ?thesis by simp
    qed
  qed
  ultimately show ?case
    using Cons.IH [of b'] Cons.prems x b y by simp
qed

lemma to_map_order_independent:
  "map_of (rev kvs) = map_of (rev kvs') \<Longrightarrow> to_map kvs = to_map kvs'"
  by (rule sorted_map_of_unique) (simp_all add: sorted_to_map map_of_to_map)

lemma mapP_case:
  "mapP p f s = (case p s of None \<Rightarrow> None | Some (Failure t e) \<Rightarrow> Some (Failure t e)
     | Some (Success a t) \<Rightarrow> Some (Success (f a) t))"
  by (simp add: mapP_def split: option.splits ParseResult.splits)

lemma andP_case:
  "andP pa pb f s = (case pa s of None \<Rightarrow> None | Some (Failure t e) \<Rightarrow> Some (Failure t e)
     | Some (Success a t) \<Rightarrow>
         (case pb t of None \<Rightarrow> None | Some (Failure t' e) \<Rightarrow> Some (Failure t' e)
          | Some (Success b t') \<Rightarrow> Some (Success (f a b) t')))"
  by (simp add: andP_def split: option.splits ParseResult.splits)

lemma orP_case:
  "orP p (q # qs) s = (case p s of None \<Rightarrow> None | Some (Failure t e) \<Rightarrow> orP q qs s
     | Some (Success a t) \<Rightarrow> Some (Success a t))"
  by (simp split: option.splits ParseResult.splits)

lemma mapP_Success:
  "mapP p f s = Some (Success v t) \<longleftrightarrow> (\<exists>a. p s = Some (Success a t) \<and> v = f a)"
  by (auto simp: mapP_case split: option.splits ParseResult.splits)

lemma mapP_Failure:
  "mapP p f s = Some (Failure t e) \<longleftrightarrow> p s = Some (Failure t e)"
  by (auto simp: mapP_case split: option.splits ParseResult.splits)

lemma andP_Success:
  "andP pa pb f s = Some (Success v t) \<longleftrightarrow>
     (\<exists>a t1 b. pa s = Some (Success a t1) \<and> pb t1 = Some (Success b t) \<and> v = f a b)"
  by (auto simp: andP_case split: option.splits ParseResult.splits)

lemma andP_Failure:
  "andP pa pb f s = Some (Failure t e) \<longleftrightarrow>
     pa s = Some (Failure t e) \<or> (\<exists>a t1. pa s = Some (Success a t1) \<and> pb t1 = Some (Failure t e))"
  by (auto simp: andP_case split: option.splits ParseResult.splits)

lemma rightP_Success:
  "rightP pa pb s = Some (Success v t) \<longleftrightarrow>
     (\<exists>a t1. pa s = Some (Success a t1) \<and> pb t1 = Some (Success v t))"
  by (auto simp: rightP_def andP_Success)

lemma leftP_Success:
  "leftP pa pb s = Some (Success v t) \<longleftrightarrow>
     (\<exists>t1 b. pa s = Some (Success v t1) \<and> pb t1 = Some (Success b t))"
  by (auto simp: leftP_def andP_Success)

lemma betweenP_Success:
  "betweenP lp rp p s = Some (Success v t) \<longleftrightarrow>
     (\<exists>a s1 t1 b. lp s = Some (Success a s1) \<and> p s1 = Some (Success v t1)
        \<and> rp t1 = Some (Success b t))"
  by (auto simp: betweenP_def rightP_Success leftP_Success)

lemma trimP_Success:
  "trimP p s = Some (Success v t) \<longleftrightarrow>
     (\<exists>ws s1 t1 ws'. spaces s = Some (Success ws s1) \<and> p s1 = Some (Success v t1)
        \<and> spaces t1 = Some (Success ws' t))"
  by (auto simp: trimP_def rightP_Success leftP_Success)

lemma orP2_Success:
  "orP p [q] s = Some (Success v t) \<longleftrightarrow>
     p s = Some (Success v t) \<or> ((\<exists>t' e. p s = Some (Failure t' e)) \<and> q s = Some (Success v t))"
  by (auto simp: orP_case simp del: orP.simps(2) split: option.splits ParseResult.splits)

lemma to_map_Nil: "to_map [] = []"
  by (simp add: to_map_def)

lemma object_items_objectP:
  assumes "object_items rnd n s kvs t"
  shows "objectP rnd n s = Some (Success (JSON_OBJECT (to_map kvs)) t)"
  using assms
proof cases
  case (no_item ws s0 c s1 u e c' t3 ws')
  let ?items = "andP (itemP rnd n) (manyP (rightP (charP CHR '','') (itemP rnd n)))
                (\<lambda>x xs. JSON_OBJECT (to_map (x # xs)))"
  from no_item(4) have "?items s1 = Some (Failure u e)"
    unfolding andP_Failure by blast
  then have "orP ?items [pureP (JSON_OBJECT [])] s1 = Some (Success (JSON_OBJECT []) s1)"
    unfolding orP2_Success by (simp add: pureP_def del: itemP.simps)
  with no_item show ?thesis
    unfolding objectP.simps trimP_Success betweenP_Success by (simp only: to_map_Nil) blast
next
  case (items ws s0 c s1 x t1 xs t2 c' t3 ws')
  let ?items = "andP (itemP rnd n) (manyP (rightP (charP CHR '','') (itemP rnd n)))
                (\<lambda>x xs. JSON_OBJECT (to_map (x # xs)))"
  from many_run_manyP [OF items(5)] items(4)
  have "?items s1 = Some (Success (JSON_OBJECT (to_map (x # xs))) t2)"
    unfolding andP_Success by blast
  then have "orP ?items [pureP (JSON_OBJECT [])] s1 = Some (Success (JSON_OBJECT (to_map (x # xs))) t2)"
    unfolding orP2_Success by blast
  with items show ?thesis
    unfolding objectP.simps trimP_Success betweenP_Success by blast
qed

lemma objectP_object_items:
  assumes "objectP rnd n s = Some (Success v t)"
  shows "\<exists>kvs. object_items rnd n s kvs t \<and> v = JSON_OBJECT (to_map kvs)"
proof -
  let ?items = "andP (itemP rnd n) (manyP (rightP (charP CHR '','') (itemP rnd n)))
                (\<lambda>x xs. JSON_OBJECT (to_map (x # xs)))"
  from assms obtain ws s0 c s1 t2 c' t3 ws' where
    sp: "spaces s = Some (Success ws s0)" and lb: "charP CHR ''{'' s0 = Some (Success c s1)"
    and core: "orP ?items [pureP (JSON_OBJECT [])] s1 = Some (Success v t2)"
    and rb: "charP CHR ''}'' t2 = Some (Success c' t3)" and sp': "spaces t3 = Some (Success ws' t)"
    unfolding objectP.simps trimP_Success betweenP_Success by blast
  from core consider (some) "?items s1 = Some (Success v t2)"
    | (none) u e where "?items s1 = Some (Failure u e)" "pureP (JSON_OBJECT []) s1 = Some (Success v t2)"
    unfolding orP2_Success by blast
  then show ?thesis
  proof cases
    case some
    then obtain x t1 xs where x: "itemP rnd n s1 = Some (Success x t1)"
      and xs: "manyP (rightP (charP CHR '','') (itemP rnd n)) t1 = Some (Success xs t2)"
      and v: "v = JSON_OBJECT (to_map (x # xs))"
      unfolding andP_Success by blast
    from manyP_many_run [OF xs] have "many_run (rightP (charP CHR '','') (itemP rnd n)) t1 xs t2"
      by simp
    from object_items.items [OF sp lb x this rb sp'] v show ?thesis by blast
  next
    case none
    from none(2) have v: "v = JSON_OBJECT (to_map [])" and t2: "t2 = s1"
      by (simp_all add: pureP_def to_map_Nil)
    from none(1) consider "itemP rnd n s1 = Some (Failure u e)"
      | t1 where "manyP (rightP (charP CHR '','') (itemP rnd n)) t1 = Some (Failure u e)"
      unfolding andP_Failure by blast
    then have "itemP rnd n s1 = Some (Failure u e)"
    proof cases
      case 1
      then show ?thesis .
    next
      case 2
      from manyP_many_run [OF 2] show ?thesis by simp
    qed
    from object_items.no_item [OF sp lb this rb [unfolded t2] sp'] v show ?thesis by blast
  qed
qed

lemma keys_to_map: "set (map fst (to_map kvs)) = set (map fst kvs)"
proof -
  have "set (map fst (to_map kvs)) = dom (map_of (to_map kvs))"
    by (simp add: dom_map_of_conv_image_fst)
  also have "\<dots> = dom (map_of (rev kvs))" by (simp only: map_of_to_map)
  also have "\<dots> = set (map fst kvs)" by (simp add: dom_map_of_conv_image_fst)
  finally show ?thesis .
qed

lemma distinct_to_map: "distinct (map fst (to_map kvs))"
  using sorted_to_map [of kvs] by (simp add: strict_sorted_iff)

lemma to_map_last:
  assumes "k \<notin> fst ` set ys"
  shows "map_of (to_map (xs @ (k, v) # ys)) k = Some v"
proof -
  from assms have "map_of (rev ys) k = None" by (simp add: map_of_eq_None_iff)
  then show ?thesis by (simp add: map_of_to_map map_add_def)
qed


text \<open>
  C4.  \<^verbatim>\<open>objectP\<close> succeeds on exactly the texts that are an object with some items,
  and its value is then the map built from these items in the order of the text.
  That map is sorted by key without duplicates, has the keys of the items, and looks
  every key up to its last occurrence in the text; it is the same for any two item
  sequences with the same last occurrences, whatever their order, so two object texts
  whose items differ only in that way parse to the same value.  The example of the
  specification and the same object with its keys swapped parse to the same value; a
  repeated key keeps its last value.
\<close>

theorem objectP_key_sorted: \<open>
  (objectP rnd n s = Some (Success v t) \<longleftrightarrow>
     (\<exists>kvs. object_items rnd n s kvs t \<and> v = JSON_OBJECT (to_map kvs))) \<and>
  sorted_wrt (<) (map fst (to_map kvs)) \<and>
  distinct (map fst (to_map kvs)) \<and>
  set (map fst (to_map kvs)) = set (map fst kvs) \<and>
  map_of (to_map kvs) = map_of (rev kvs) \<and>
  (k \<notin> fst ` set ys \<longrightarrow> map_of (to_map (xs @ (k, x) # ys)) k = Some x) \<and>
  (map_of (rev kvs) = map_of (rev kvs') \<longrightarrow> to_map kvs = to_map kvs') \<and>
  (object_items rnd n s kvs t \<and> object_items rnd n s' kvs' t' \<and>
   map_of (rev kvs) = map_of (rev kvs') \<longrightarrow>
     objectP rnd n s = Some (Success (JSON_OBJECT (to_map kvs)) t) \<and>
     objectP rnd n s' = Some (Success (JSON_OBJECT (to_map kvs)) t')) \<and>
  parse (jsonP rnd (Suc (Suc m))) ''{"xyz": 2, "abc": 1}'' =
    Some (Success (JSON_OBJECT [(''abc'', JSON_NUM 1), (''xyz'', JSON_NUM 2)])
      (ParseState 20 ''{"xyz": 2, "abc": 1}'')) \<and>
  parse (jsonP rnd (Suc (Suc m))) ''{"abc": 1, "xyz": 2}'' =
    Some (Success (JSON_OBJECT [(''abc'', JSON_NUM 1), (''xyz'', JSON_NUM 2)])
      (ParseState 20 ''{"abc": 1, "xyz": 2}'')) \<and>
  parse (jsonP rnd (Suc (Suc m))) ''{"a": 1, "b": 2, "a": 3}'' =
    Some (Success (JSON_OBJECT [(''a'', JSON_NUM 3), (''b'', JSON_NUM 2)])
      (ParseState 24 ''{"a": 1, "b": 2, "a": 3}''))\<close>
proof (intro conjI impI)
  show "objectP rnd n s = Some (Success v t) \<longleftrightarrow>
     (\<exists>kvs. object_items rnd n s kvs t \<and> v = JSON_OBJECT (to_map kvs))"
    using objectP_object_items [of rnd n s v t] object_items_objectP [of rnd n s _ t] by blast
  show "sorted_wrt (<) (map fst (to_map kvs))" by (rule sorted_to_map)
  show "distinct (map fst (to_map kvs))" by (rule distinct_to_map)
  show "set (map fst (to_map kvs)) = set (map fst kvs)" by (rule keys_to_map)
  show "map_of (to_map kvs) = map_of (rev kvs)" by (rule map_of_to_map)
next
  assume "k \<notin> fst ` set ys"
  then show "map_of (to_map (xs @ (k, x) # ys)) k = Some x" by (rule to_map_last)
next
  assume "map_of (rev kvs) = map_of (rev kvs')"
  then show "to_map kvs = to_map kvs'" by (rule to_map_order_independent)
next
  assume a: "object_items rnd n s kvs t \<and> object_items rnd n s' kvs' t' \<and>
    map_of (rev kvs) = map_of (rev kvs')"
  then show "objectP rnd n s = Some (Success (JSON_OBJECT (to_map kvs)) t)"
    by (intro object_items_objectP) blast
  from a have "to_map kvs = to_map kvs'" by (intro to_map_order_independent) blast
  moreover from a have "objectP rnd n s' = Some (Success (JSON_OBJECT (to_map kvs')) t')"
    by (intro object_items_objectP) blast
  ultimately show "objectP rnd n s' = Some (Success (JSON_OBJECT (to_map kvs)) t')" by simp
next
  show \<open>parse (jsonP rnd (Suc (Suc m))) ''{"xyz": 2, "abc": 1}'' =
    Some (Success (JSON_OBJECT [(''abc'', JSON_NUM 1), (''xyz'', JSON_NUM 2)])
      (ParseState 20 ''{"xyz": 2, "abc": 1}''))\<close>
    by code_simp
  show \<open>parse (jsonP rnd (Suc (Suc m))) ''{"abc": 1, "xyz": 2}'' =
    Some (Success (JSON_OBJECT [(''abc'', JSON_NUM 1), (''xyz'', JSON_NUM 2)])
      (ParseState 20 ''{"abc": 1, "xyz": 2}''))\<close>
    by code_simp
  show \<open>parse (jsonP rnd (Suc (Suc m))) ''{"a": 1, "b": 2, "a": 3}'' =
    Some (Success (JSON_OBJECT [(''a'', JSON_NUM 3), (''b'', JSON_NUM 2)])
      (ParseState 24 ''{"a": 1, "b": 2, "a": 3}''))\<close>
    by code_simp
qed

text \<open>
  The object of the specification and the same object with its keys swapped: the items
  read from each, and the one value \<^verbatim>\<open>objectP\<close> returns for both.
\<close>

theorem objectP_key_sorted_witness: \<open>
  object_items (\<lambda>x. x) 1 (ParseState 0 ''{"xyz": 2, "abc": 1}'')
    [(''xyz'', JSON_NUM 2), (''abc'', JSON_NUM 1)] (ParseState 20 ''{"xyz": 2, "abc": 1}'') \<and>
  object_items (\<lambda>x. x) 1 (ParseState 0 ''{"abc": 1, "xyz": 2}'')
    [(''abc'', JSON_NUM 1), (''xyz'', JSON_NUM 2)] (ParseState 20 ''{"abc": 1, "xyz": 2}'') \<and>
  map_of (rev [(''xyz'', JSON_NUM 2), (''abc'', JSON_NUM 1)]) =
    map_of (rev [(''abc'', JSON_NUM 1), (''xyz'', JSON_NUM 2)]) \<and>
  objectP (\<lambda>x. x) 1 (ParseState 0 ''{"xyz": 2, "abc": 1}'') =
    Some (Success (JSON_OBJECT [(''abc'', JSON_NUM 1), (''xyz'', JSON_NUM 2)])
      (ParseState 20 ''{"xyz": 2, "abc": 1}'')) \<and>
  objectP (\<lambda>x. x) 1 (ParseState 0 ''{"abc": 1, "xyz": 2}'') =
    Some (Success (JSON_OBJECT [(''abc'', JSON_NUM 1), (''xyz'', JSON_NUM 2)])
      (ParseState 20 ''{"abc": 1, "xyz": 2}'')) \<and>
  map_of (to_map [(''a'', 1::nat), (''b'', 2), (''a'', 3)]) ''a'' = Some 3\<close>
proof -
  let ?w1 = \<open>''{"xyz": 2, "abc": 1}''\<close> and ?w2 = \<open>''{"abc": 1, "xyz": 2}''\<close>
  let ?kvs1 = "[(''xyz'', JSON_NUM 2), (''abc'', JSON_NUM 1)]"
  let ?kvs2 = "[(''abc'', JSON_NUM 1), (''xyz'', JSON_NUM 2)]"
  let ?more = "rightP (charP CHR '','') (itemP (\<lambda>x. x) 1)"
  have a1: "spaces (ParseState 0 ?w1) = Some (Success [] (ParseState 0 ?w1))"
    and b1: "charP CHR ''{'' (ParseState 0 ?w1) = Some (Success CHR ''{'' (ParseState 1 ?w1))"
    and c1: "itemP (\<lambda>x. x) 1 (ParseState 1 ?w1) = Some (Success (''xyz'', JSON_NUM 2) (ParseState 9 ?w1))"
    and d1: "manyP ?more (ParseState 9 ?w1) = Some (Success [(''abc'', JSON_NUM 1)] (ParseState 19 ?w1))"
    and e1: "charP CHR ''}'' (ParseState 19 ?w1) = Some (Success CHR ''}'' (ParseState 20 ?w1))"
    and f1: "spaces (ParseState 20 ?w1) = Some (Success [] (ParseState 20 ?w1))"
    by code_simp+
  from manyP_many_run [OF d1]
  have r1: "many_run ?more (ParseState 9 ?w1) [(''abc'', JSON_NUM 1)] (ParseState 19 ?w1)" by simp
  have i1: "object_items (\<lambda>x. x) 1 (ParseState 0 ?w1) ?kvs1 (ParseState 20 ?w1)"
    by (rule object_items.items [OF a1 b1 c1 r1 e1 f1])
  have a2: "spaces (ParseState 0 ?w2) = Some (Success [] (ParseState 0 ?w2))"
    and b2: "charP CHR ''{'' (ParseState 0 ?w2) = Some (Success CHR ''{'' (ParseState 1 ?w2))"
    and c2: "itemP (\<lambda>x. x) 1 (ParseState 1 ?w2) = Some (Success (''abc'', JSON_NUM 1) (ParseState 9 ?w2))"
    and d2: "manyP ?more (ParseState 9 ?w2) = Some (Success [(''xyz'', JSON_NUM 2)] (ParseState 19 ?w2))"
    and e2: "charP CHR ''}'' (ParseState 19 ?w2) = Some (Success CHR ''}'' (ParseState 20 ?w2))"
    and f2: "spaces (ParseState 20 ?w2) = Some (Success [] (ParseState 20 ?w2))"
    by code_simp+
  from manyP_many_run [OF d2]
  have r2: "many_run ?more (ParseState 9 ?w2) [(''xyz'', JSON_NUM 2)] (ParseState 19 ?w2)" by simp
  have i2: "object_items (\<lambda>x. x) 1 (ParseState 0 ?w2) ?kvs2 (ParseState 20 ?w2)"
    by (rule object_items.items [OF a2 b2 c2 r2 e2 f2])
  have m: "map_of (rev ?kvs1) = map_of (rev ?kvs2)"
    by (rule ext) simp
  have tm: "to_map ?kvs1 = ?kvs2" by code_simp
  have n: "''a'' \<notin> fst ` set ([] :: (string \<times> nat) list)" by simp
  note l0 = objectP_key_sorted [where k = "''a''" and ys = "[]" and xs = "[(''a'', 1::nat), (''b'', 2)]" and x = 3,
      THEN conjunct2, THEN conjunct2, THEN conjunct2, THEN conjunct2, THEN conjunct2,
      THEN conjunct1, THEN mp, OF n]
  then have l: "map_of (to_map [(''a'', 1::nat), (''b'', 2), (''a'', 3)]) ''a'' = Some 3"
    by simp
  note o0 = objectP_key_sorted [where rnd = "\<lambda>x. x" and n = 1 and s = "ParseState 0 ?w1" and t = "ParseState 20 ?w1"
      and kvs = ?kvs1 and kvs' = ?kvs2 and s' = "ParseState 0 ?w2" and t' = "ParseState 20 ?w2",
      THEN conjunct2, THEN conjunct2, THEN conjunct2, THEN conjunct2, THEN conjunct2,
      THEN conjunct2, THEN conjunct2, THEN conjunct1, THEN mp, OF conjI [OF i1 conjI [OF i2 m]]]
  from o0 have o1: "objectP (\<lambda>x. x) 1 (ParseState 0 ?w1) = Some (Success (JSON_OBJECT ?kvs2) (ParseState 20 ?w1))"
    and o2: "objectP (\<lambda>x. x) 1 (ParseState 0 ?w2) = Some (Success (JSON_OBJECT ?kvs2) (ParseState 20 ?w2))"
    unfolding tm by (rule conjunct1, rule conjunct2)
  show ?thesis
    by (intro conjI i1 i2 m o1 o2 l)
qed

section \<open>Arrays and trailing commas\<close>

declare jsonP.simps [simp del] arrayP.simps [simp del] itemP.simps [simp del]
  objectP.simps [simp del] orP.simps(2) [simp del] stringP.simps(2) [simp del]

lemma space_predP: "space = predP is_space"
proof -
  have "(\<lambda>c. foldl (\<lambda>t x. t \<or> c = x) False [CHR '' '', CHR 0x0A, CHR 0x09]) = is_space"
    by (auto simp: fun_eq_iff is_space_def)
  then show ?thesis by (simp add: space_def oneOfP_def)
qed

lemma manyP_predP_run:
  assumes "\<forall>c \<in> set cs. f c" "wf_state s" "remaining s = cs @ r" "r = [] \<or> \<not> f (hd r)"
  shows "manyP (predP f) s = Some (Success cs (advance (length cs) s))"
  using assms
proof (induction cs arbitrary: s)
  case Nil
  then obtain res where "predP f s = Some res" "\<not> success res"
    using predP_stops [of s r f] by auto
  from manyP_stop [of "predP f" s, OF this] show ?case by simp
next
  case (Cons c cs)
  from Cons.prems have rem: "remaining s = c # (cs @ r)" and c: "f c" by simp_all
  then have d: "predP f s = Some (Success c (advance 1 s))"
    by (simp add: predP_Cons)
  have "manyP (predP f) (advance 1 s) = Some (Success cs (advance (length cs) (advance 1 s)))"
    using Cons.prems remaining_Cons [OF rem] by (intro Cons.IH) simp_all
  from manyP_Cons [OF d this] show ?case by simp
qed

lemma spaces_run:
  assumes "\<forall>c \<in> set ws. is_space c" "wf_state s" "remaining s = ws @ r"
    "r = [] \<or> \<not> is_space (hd r)"
  shows "spaces s = Some (Success ws (advance (length ws) s))"
  unfolding spaces_def space_predP using assms by (rule manyP_predP_run)

lemma spaces_none:
  assumes "remaining s = c # r" "\<not> is_space c"
  shows "spaces s = Some (Success [] s)"
proof -
  from assms have "predP is_space s = Some (Failure (advance 1 s) [''unexpect '' @ [c]])"
    by (simp add: predP_Cons)
  from manyP_stop [of "predP is_space" s, OF this] show ?thesis
    by (simp add: spaces_def space_predP)
qed

lemma trimP_after_spaces:
  "spaces s = Some (Success ws s1) \<Longrightarrow> trimP p s = leftP p spaces s1"
  by (simp add: trimP_def rightP_def andP_case leftP_def split: option.splits ParseResult.splits)

lemma leftP_Failure: "p s = Some (Failure t e) \<Longrightarrow> leftP p q s = Some (Failure t e)"
  by (simp add: leftP_def andP_case)

lemma charP_Cons:
  "remaining s = c # r \<Longrightarrow> charP d s =
     Some (if d = c then Success c (advance 1 s) else Failure (advance 1 s) [''unexpect '' @ [c]])"
  by (simp add: charP_def predP_Cons)

lemma stringP_first:
  "remaining s = c # r \<Longrightarrow> c \<noteq> d \<Longrightarrow>
   stringP (d # ds) s = Some (Failure (advance 1 s) [''unexpect '' @ [c]])"
  by (simp add: stringP.simps(2) charP_Cons)

text \<open>What each alternative of \<^verbatim>\<open>jsonP\<close> does on a first character it cannot start with.\<close>

lemma nullP_first:
  assumes "remaining s = c # r" "\<not> is_space c" "c \<noteq> CHR ''n''"
  shows "nullP s = Some (Failure (advance 1 s) [''unexpect '' @ [c]])"
  using assms unfolding nullP_def trimP_after_spaces [OF spaces_none [OF assms(1,2)]]
  by (intro leftP_Failure) (simp add: mapP_case stringP_first)

lemma boolP_first:
  assumes "remaining s = c # r" "\<not> is_space c" "c \<noteq> CHR ''t''" "c \<noteq> CHR ''f''"
  shows "boolP s = Some (Failure (advance 1 s) [''unexpect '' @ [c]])"
  using assms unfolding boolP_def trimP_after_spaces [OF spaces_none [OF assms(1,2)]]
  by (intro leftP_Failure) (simp add: orP_case mapP_case stringP_first)

lemma natP_first:
  assumes "remaining s = c # r" "\<not> is_digit c"
  shows "natP s = Some (Failure (advance 1 s) [''unexpect '' @ [c]])"
  using assms by (simp add: natP_def someP_def digitP_def mapP_case andP_case predP_Cons)

lemma intP_first:
  assumes "remaining s = c # r" "\<not> is_digit c" "c \<noteq> CHR ''-''"
  shows "intP s = Some (Failure (advance 1 s) [''unexpect '' @ [c]])"
  using assms
  by (simp add: intP_def orP_case mapP_case rightP_def andP_case charP_Cons natP_first)

lemma doubleP_first:
  assumes "remaining s = c # r" "\<not> is_digit c" "c \<noteq> CHR ''-''"
  shows "doubleP rnd s = Some (Failure (advance 1 s) [''unexpect '' @ [c]])"
  using assms
  by (simp add: doubleP_def orP_case mapP_case andP_case intP_first)

lemma numP_first:
  assumes "remaining s = c # r" "\<not> is_space c" "\<not> is_digit c" "c \<noteq> CHR ''-''"
  shows "numP rnd s = Some (Failure (advance 1 s) [''unexpect '' @ [c]])"
  using assms unfolding numP_def trimP_after_spaces [OF spaces_none [OF assms(1,2)]]
  by (intro leftP_Failure) (simp add: mapP_case doubleP_first)

lemma escapeStrP_first:
  assumes "remaining s = c # r" "\<not> is_space c" "c \<noteq> CHR 0x22"
  shows "escapeStrP s = Some (Failure (advance 1 s) [''unexpect '' @ [c]])"
  using assms unfolding escapeStrP_def trimP_after_spaces [OF spaces_none [OF assms(1,2)]]
  by (intro leftP_Failure) (simp add: betweenP_def rightP_def andP_case charP_Cons)

lemma strP_first:
  assumes "remaining s = c # r" "\<not> is_space c" "c \<noteq> CHR 0x22"
  shows "strP s = Some (Failure (advance 1 s) [''unexpect '' @ [c]])"
  using escapeStrP_first [OF assms] by (simp add: strP_def mapP_case)

lemma arrayP_first:
  assumes "remaining s = c # r" "\<not> is_space c" "c \<noteq> CHR ''[''"
  shows "arrayP rnd n s = Some (Failure (advance 1 s) [''unexpect '' @ [c]])"
  using assms unfolding arrayP.simps trimP_after_spaces [OF spaces_none [OF assms(1,2)]]
  by (intro leftP_Failure) (simp add: betweenP_def rightP_def andP_case charP_Cons)

lemma objectP_first:
  assumes "remaining s = c # r" "\<not> is_space c" "c \<noteq> CHR ''{''"
  shows "objectP rnd n s = Some (Failure (advance 1 s) [''unexpect '' @ [c]])"
  using assms unfolding objectP.simps trimP_after_spaces [OF spaces_none [OF assms(1,2)]]
  by (intro leftP_Failure) (simp add: betweenP_def rightP_def andP_case charP_Cons)

lemma jsonP_first:
  assumes "remaining s = c # r" "\<not> is_space c" "\<not> starts_value c"
  shows "jsonP rnd (Suc n) s = Some (Failure (advance 1 s) [''unexpect '' @ [c]])"
proof -
  from assms(3) have c: "c \<noteq> CHR ''n''" "c \<noteq> CHR ''t''" "c \<noteq> CHR ''f''" "c \<noteq> CHR ''-''"
    "c \<noteq> CHR 0x22" "c \<noteq> CHR ''[''" "c \<noteq> CHR ''{''" "\<not> is_digit c"
    by (auto simp: starts_value_def)
  note a = assms(1,2)
  show ?thesis
    by (simp add: jsonP.simps(2) orP_case lazyP_def nullP_first [OF a c(1)] boolP_first [OF a c(2,3)]
        numP_first [OF a c(8,4)] strP_first [OF a c(5)] arrayP_first [OF a c(6)]
        objectP_first [OF a c(7)])
qed

lemma trimP_skip_spaces:
  assumes "spaces s = Some (Success ws s1)" "spaces s1 = Some (Success [] s1)"
  shows "trimP p s = trimP p s1"
  by (simp add: trimP_after_spaces [OF assms(1)] trimP_after_spaces [OF assms(2)])

lemma orP_agree:
  "p s = p s1 \<Longrightarrow> \<forall>q \<in> set ps. q s = q s1 \<Longrightarrow> orP p ps s = orP p ps s1"
  by (induction ps arbitrary: p)
    (simp_all add: orP_case split: option.splits ParseResult.splits)

lemma jsonP_skip_spaces:
  assumes "spaces s = Some (Success ws s1)" "spaces s1 = Some (Success [] s1)"
  shows "jsonP rnd n s = jsonP rnd n s1"
proof (cases n)
  case 0
  then show ?thesis by (simp add: jsonP.simps(1))
next
  case (Suc m)
  note t = trimP_skip_spaces [OF assms]
  have "strP s = strP s1"
    by (simp add: strP_def escapeStrP_def mapP_case t)
  then show ?thesis
    unfolding Suc jsonP.simps
    by (intro orP_agree) (simp_all add: lazyP_def nullP_def boolP_def numP_def
        arrayP.simps objectP.simps t)
qed

lemma jsonP_spaces_first:
  assumes "wf_state s" "remaining s = sp @ c # r" "\<forall>c \<in> set sp. is_space c"
    "\<not> is_space c" "\<not> starts_value c"
  shows "jsonP rnd (Suc n) s = Some (Failure (advance (Suc (length sp)) s) [''unexpect '' @ [c]])"
proof -
  let ?s1 = "advance (length sp) s"
  have 1: "spaces s = Some (Success sp ?s1)"
    using assms by (intro spaces_run [where r = "c # r"]) simp_all
  have r1: "remaining ?s1 = c # r"
    using remaining_append(1) [OF assms(1,2)] .
  from jsonP_skip_spaces [OF 1 spaces_none [OF r1 assms(4)]] jsonP_first [OF r1 assms(4,5)]
  show ?thesis by simp
qed

lemma arrayP_stops_at_comma:
  assumes sp: "spaces s = Some (Success ws s1)" and br: "remaining s1 = CHR ''['' # r1"
    and x: "jsonP rnd n (advance 1 s1) = Some (Success x t1)"
    and run: "many_run (rightP (charP CHR '','') (lazyP (\<lambda>_. jsonP rnd n))) t1 xs t2"
    and comma: "remaining t2 = CHR '','' # r2"
  shows "arrayP rnd n s = Some (Failure (advance 1 t2) [''unexpect ,''])"
proof -
  let ?elems = "orP (andP (lazyP (\<lambda>_. jsonP rnd n))
                (manyP (rightP (charP CHR '','') (lazyP (\<lambda>_. jsonP rnd n))))
                (\<lambda>x xs. JSON_ARRAY (x # xs))) [pureP (JSON_ARRAY [])]"
  from many_run_manyP [OF run] x
  have "?elems (advance 1 s1) = Some (Success (JSON_ARRAY (x # xs)) t2)"
    by (simp add: orP_case andP_case lazyP_def)
  then have "betweenP (charP CHR ''['') (charP CHR '']'') ?elems s1
      = Some (Failure (advance 1 t2) [''unexpect ,''])"
    using br comma
    by (simp add: betweenP_def rightP_def leftP_def andP_case charP_Cons)
  then show ?thesis
    unfolding arrayP.simps trimP_after_spaces [OF sp] by (rule leftP_Failure)
qed

lemma comma_bracket_stops:
  assumes "remaining t = CHR '','' # sp @ CHR '']'' # r" "\<forall>c \<in> set sp. is_space c"
  shows "rightP (charP CHR '','') (lazyP (\<lambda>_. jsonP rnd (Suc m))) t
     = Some (Failure (advance (length sp + 2) t) [''unexpect ]''])"
proof -
  have "\<not> is_space CHR '']''" "\<not> starts_value CHR '']''"
    by (simp_all add: is_space_def starts_value_def is_digit_def less_eq_char_def)
  with jsonP_spaces_first [of "advance 1 t" sp "CHR '']''" r rnd m] remaining_Cons [OF assms(1)] assms(2)
  have "jsonP rnd (Suc m) (advance 1 t) = Some (Failure (advance (length sp + 2) t) [''unexpect ]''])"
    by (simp add: add.commute)
  then show ?thesis
    using assms(1) by (simp add: rightP_def andP_case charP_Cons lazyP_def)
qed

text \<open>
  C5.  Let \<^verbatim>\<open>arrayP\<close> be called on optional white space and an opening bracket, let a
  first value be parsed, and let the loop of \<^verbatim>\<open>, value\<close> stop in front of a comma: then
  \<^verbatim>\<open>arrayP\<close> returns a failure, since the closing bracket is expected there.  The loop
  does stop in front of a comma that is followed (after optional white space) by the
  closing bracket, because no value starts with \<^verbatim>\<open>]\<close>.  On \<^verbatim>\<open>"[1,]"\<close> both \<^verbatim>\<open>arrayP\<close> and
  \<^verbatim>\<open>jsonP\<close> fail.
\<close>

theorem arrayP_trailing_comma:
  "(spaces s = Some (Success ws s1) \<and> remaining s1 = CHR ''['' # r1 \<and>
    jsonP rnd n (advance 1 s1) = Some (Success x t1) \<and>
    many_run (rightP (charP CHR '','') (lazyP (\<lambda>_. jsonP rnd n))) t1 xs t2 \<and>
    remaining t2 = CHR '','' # r2 \<longrightarrow>
    arrayP rnd n s = Some (Failure (advance 1 t2) [''unexpect ,''])) \<and>
   (remaining t = CHR '','' # sp @ CHR '']'' # r \<and> (\<forall>c \<in> set sp. is_space c) \<longrightarrow>
    rightP (charP CHR '','') (lazyP (\<lambda>_. jsonP rnd (Suc m))) t
      = Some (Failure (advance (length sp + 2) t) [''unexpect ]''])) \<and>
   parse (arrayP rnd (Suc k)) ''[1,]'' = Some (Failure (ParseState 3 ''[1,]'') [''unexpect ,'']) \<and>
   parse (jsonP rnd (Suc (Suc k))) ''[1,]'' = Some (Failure (ParseState 1 ''[1,]'') [''unexpect [''])"
proof (intro conjI impI; (elim conjE)?)
  assume "spaces s = Some (Success ws s1)" "remaining s1 = CHR ''['' # r1"
    "jsonP rnd n (advance 1 s1) = Some (Success x t1)"
    "many_run (rightP (charP CHR '','') (lazyP (\<lambda>_. jsonP rnd n))) t1 xs t2"
    "remaining t2 = CHR '','' # r2"
  then show "arrayP rnd n s = Some (Failure (advance 1 t2) [''unexpect ,''])"
    by (rule arrayP_stops_at_comma)
next
  assume "remaining t = CHR '','' # sp @ CHR '']'' # r" "\<forall>c \<in> set sp. is_space c"
  then show "rightP (charP CHR '','') (lazyP (\<lambda>_. jsonP rnd (Suc m))) t
      = Some (Failure (advance (length sp + 2) t) [''unexpect ]''])"
    by (rule comma_bracket_stops)
next
  show "parse (arrayP rnd (Suc k)) ''[1,]'' = Some (Failure (ParseState 3 ''[1,]'') [''unexpect ,''])"
    by code_simp
  show "parse (jsonP rnd (Suc (Suc k))) ''[1,]'' = Some (Failure (ParseState 1 ''[1,]'') [''unexpect [''])"
    by code_simp
qed

text \<open>
  The input \<^verbatim>\<open>"[1 , 2 , ]"\<close>: the first value ends at position 3, the loop takes \<^verbatim>\<open>, 2\<close>
  and stops at the comma at position 7, and \<^verbatim>\<open>arrayP\<close> fails.
\<close>

theorem arrayP_trailing_comma_witness:
  "remaining (ParseState 7 ''[1 , 2 , ]'') = CHR '','' # '' '' @ CHR '']'' # [] \<and>
   is_space CHR '' '' \<and>
   many_run (rightP (charP CHR '','') (lazyP (\<lambda>_. jsonP (\<lambda>x. x) 1)))
     (ParseState 3 ''[1 , 2 , ]'') [JSON_NUM 2] (ParseState 7 ''[1 , 2 , ]'') \<and>
   arrayP (\<lambda>x. x) 1 (ParseState 0 ''[1 , 2 , ]'')
     = Some (Failure (ParseState 8 ''[1 , 2 , ]'') [''unexpect ,''])"
proof -
  let ?w = "''[1 , 2 , ]''"
  let ?q = "rightP (charP CHR '','') (lazyP (\<lambda>_. jsonP (\<lambda>x. x) 1))"
  have rem: "remaining (ParseState 7 ?w) = CHR '','' # '' '' @ CHR '']'' # []"
    by (simp add: remaining_def)
  have sp: "\<forall>c \<in> set '' ''. is_space c"
    by (simp add: is_space_def)
  from arrayP_trailing_comma [where m = 0 and rnd = "\<lambda>x. x", THEN conjunct2, THEN conjunct1,
      THEN mp, OF conjI, OF rem sp]
  have stop: "?q (ParseState 7 ?w) = Some (Failure (ParseState 10 ?w) [''unexpect ]''])"
    by (simp add: advance_def)
  have step: "?q (ParseState 3 ?w) = Some (Success (JSON_NUM 2) (ParseState 7 ?w))"
    by code_simp
  have "many_run ?q (ParseState 7 ?w) [] (ParseState 7 ?w)"
    using many_run.stop [of ?q "ParseState 7 ?w", OF stop] by simp
  then have run: "many_run ?q (ParseState 3 ?w) [JSON_NUM 2] (ParseState 7 ?w)"
    using many_run.step [of ?q "ParseState 3 ?w", OF step] by simp
  have s0: "spaces (ParseState 0 ?w) = Some (Success [] (ParseState 0 ?w))"
    by code_simp
  have br: "remaining (ParseState 0 ?w) = CHR ''['' # ''1 , 2 , ]''"
    by (simp add: remaining_def)
  have x: "jsonP (\<lambda>x. x) 1 (advance 1 (ParseState 0 ?w)) = Some (Success (JSON_NUM 1) (ParseState 3 ?w))"
    unfolding advance_def by code_simp
  have c: "remaining (ParseState 7 ?w) = CHR '','' # '' ]''"
    by (simp add: remaining_def)
  from arrayP_trailing_comma [THEN conjunct1, THEN mp, OF conjI, OF s0 conjI, OF br conjI,
      OF x conjI, OF run c]
  have "arrayP (\<lambda>x. x) 1 (ParseState 0 ?w) = Some (Failure (ParseState 8 ?w) [''unexpect ,''])"
    by (simp add: advance_def)
  with rem sp run show ?thesis by simp
qed

section \<open>Text after the value\<close>

lemma stableD: "stable p s \<Longrightarrow> p s = Some r \<Longrightarrow> p (extend x s) = Some (extend_result x r)"
  by (simp add: stable_def)

lemma stableI: "(\<And>x. p (extend x s) = map_option (extend_result x) (p s)) \<Longrightarrow> stable p s"
  by (simp add: stable_def)

lemma remaining_extend_wf: "wf_state s \<Longrightarrow> remaining (extend x s) = remaining s @ x"
  by (simp add: remaining_def extend_def wf_state_def)

lemma remaining_extend:
  assumes "remaining s = c # r"
  shows "remaining (extend x s) = c # r @ x"
proof -
  from remaining_Cons(1) [OF assms] have "wf_state s" by (simp add: wf_state_def)
  from remaining_extend_wf [OF this, of x] assms show ?thesis by simp
qed

lemma advance_extend [simp]: "advance k (extend x s) = extend x (advance k s)"
  by (simp add: advance_def extend_def)

lemma wf_extend: "wf_state s \<Longrightarrow> wf_state (extend x s)"
  by (simp add: wf_state_def extend_def)

lemma success_extend_result [simp]: "success (extend_result x r) = success r"
  by (cases r) simp_all

lemma stable_predP: "remaining s \<noteq> [] \<Longrightarrow> stable (predP f) s"
proof (rule stableI)
  fix x assume "remaining s \<noteq> []"
  then obtain c r where r: "remaining s = c # r" by (cases "remaining s") auto
  from predP_Cons [OF r, of f] predP_Cons [OF remaining_extend [OF r], of f x]
  show "predP f (extend x s) = map_option (extend_result x) (predP f s)" by simp
qed

lemma stable_charP: "remaining s \<noteq> [] \<Longrightarrow> stable (charP c) s"
  by (simp add: charP_def stable_predP)

lemma stable_idP: "remaining s \<noteq> [] \<Longrightarrow> stable idP s"
proof (rule stableI)
  fix x assume "remaining s \<noteq> []"
  then obtain c r where r: "remaining s = c # r" by (cases "remaining s") auto
  from idP_Cons [OF r] idP_Cons [OF remaining_extend [OF r], of x]
  show "idP (extend x s) = map_option (extend_result x) (idP s)" by simp
qed

lemma stable_mapP:
  assumes "stable p s"
  shows "stable (mapP p f) s"
proof (rule stableI)
  fix x
  show "mapP p f (extend x s) = map_option (extend_result x) (mapP p f s)"
  proof (cases "p s")
    case None
    with assms show ?thesis by (simp add: stable_def mapP_case)
  next
    case (Some r)
    from stableD [OF assms Some, of x] Some show ?thesis
      by (cases r) (simp_all add: mapP_case)
  qed
qed

lemma stable_andP:
  assumes "stable pa s" "\<And>a t. pa s = Some (Success a t) \<Longrightarrow> stable pb t"
  shows "stable (andP pa pb f) s"
proof (rule stableI)
  fix x
  show "andP pa pb f (extend x s) = map_option (extend_result x) (andP pa pb f s)"
  proof (cases "pa s")
    case None
    with assms(1) show ?thesis by (simp add: stable_def andP_case)
  next
    case (Some ra)
    note a = stableD [OF assms(1) Some, of x]
    show ?thesis
    proof (cases ra)
      case (Failure t e)
      with a Some show ?thesis by (simp add: andP_case)
    next
      case (Success v t)
      with Some have "stable pb t" by (intro assms(2)) simp
      then have "pb (extend x t) = map_option (extend_result x) (pb t)" by (simp add: stable_def)
      with a Some Success show ?thesis
        by (simp add: andP_case split: option.splits ParseResult.splits)
    qed
  qed
qed

lemma stable_rightP:
  "stable pa s \<Longrightarrow> (\<And>a t. pa s = Some (Success a t) \<Longrightarrow> stable pb t) \<Longrightarrow> stable (rightP pa pb) s"
  unfolding rightP_def by (rule stable_andP)

lemma stable_orP:
  assumes "stable p s" "\<And>t e. p s = Some (Failure t e) \<Longrightarrow> stable (orP q qs) s"
  shows "stable (orP p (q # qs)) s"
proof (rule stableI)
  fix x
  show "orP p (q # qs) (extend x s) = map_option (extend_result x) (orP p (q # qs) s)"
  proof (cases "p s")
    case None
    with assms(1) show ?thesis by (simp add: stable_def orP_case)
  next
    case (Some r)
    note a = stableD [OF assms(1) Some, of x]
    show ?thesis
    proof (cases r)
      case (Success v t)
      with a Some show ?thesis by (simp add: orP_case)
    next
      case (Failure t e)
      with Some have "stable (orP q qs) s" by (intro assms(2)) simp
      then have "orP q qs (extend x s) = map_option (extend_result x) (orP q qs s)"
        by (simp add: stable_def)
      with a Some Failure show ?thesis by (simp add: orP_case)
    qed
  qed
qed

lemma stable_orP1: "stable p s \<Longrightarrow> stable (orP p []) s"
  by simp

lemma many_run_keep:
  assumes "many_run p s xs t"
    "\<And>u ys r. many_run p u ys t \<Longrightarrow> p u = Some r \<Longrightarrow> p (extend x u) = Some (extend_result x r)"
  shows "manyP p (extend x s) = Some (Success xs (extend x t))"
  using assms
proof (induction rule: many_run.induct)
  case (stop s r)
  have "p (extend x s) = Some (extend_result x r)"
    by (rule stop.prems [OF many_run.stop [of p s r, OF stop.hyps] stop.hyps(1)])
  with stop.hyps(2)
  show ?case by (intro manyP_stop [where r = "extend_result x r"]) simp_all
next
  case (step s r xs t)
  have 1: "p (extend x s) = Some (extend_result x r)"
    by (rule step.prems [OF many_run.step [of p s r, OF step.hyps] step.hyps(1)])
  from step.hyps(2) obtain v s' where r: "r = Success v s'" by (cases r) auto
  from step.IH [OF step.prems] r
  have 2: "manyP p (extend x s') = Some (Success xs (extend x t))" by simp
  from manyP_Cons [OF 1 [unfolded r extend_result.simps] 2] r show ?case by simp
qed

lemma many_run_stable:
  assumes "many_run p s xs t" "\<And>u ys. many_run p u ys t \<Longrightarrow> stable p u"
  shows "manyP p (extend x s) = Some (Success xs (extend x t))"
  by (rule many_run_keep [OF assms(1)]) (rule stableD [OF assms(2)])

lemma many_run_failsD:
  assumes "many_run p s xs t" "p s = Some (Failure u e)"
  shows "t = s \<and> xs = []"
  using assms(1)
proof (cases rule: many_run.cases)
  case (stop r)
  then show ?thesis by simp
next
  case (step r ys)
  with assms(2) show ?thesis by simp
qed

lemma remaining_nonempty:
  "pos s < length (inp s) \<Longrightarrow> remaining s = inp s ! pos s # remaining (advance 1 s)"
  by (simp add: remaining_def advance_def Cons_nth_drop_Suc)

lemma idP_Some_wf: "idP s = Some r \<Longrightarrow> wf_state s"
  by (auto simp: idP_def wf_state_def split: if_splits)

lemma predP_Some_wf: "predP f s = Some r \<Longrightarrow> wf_state s"
  by (auto simp: predP_def dest: idP_Some_wf split: bind_splits)

lemma manyP_Some_first: "manyP p s = Some r \<Longrightarrow> \<exists>r'. p s = Some r'"
  by (subst (asm) manyP.simps) (auto split: bind_splits)

lemma spaces_Some_wf: "spaces s = Some r \<Longrightarrow> wf_state s"
  unfolding spaces_def space_predP by (auto dest: manyP_Some_first predP_Some_wf)

lemma predP_SuccessD:
  assumes "predP f s = Some (Success v t)"
  shows "\<exists>r. remaining s = v # r \<and> f v \<and> t = advance 1 s"
proof -
  from assms have "idP s = Some (Success v t) \<and> f v"
    by (auto simp: predP_def split: bind_splits if_splits)
  then have "pos s < length (inp s) \<and> v = inp s ! pos s \<and> t = advance 1 s \<and> f v"
    by (auto simp: idP_def advance_def split: if_splits)
  with remaining_nonempty [of s] show ?thesis by auto
qed

lemma charP_SuccessD:
  "charP c s = Some (Success v t) \<Longrightarrow> \<exists>r. remaining s = c # r \<and> v = c \<and> t = advance 1 s"
  unfolding charP_def by (auto dest: predP_SuccessD)

lemma digitP_SuccessD:
  "digitP s = Some (Success v t)
   \<Longrightarrow> \<exists>c r. remaining s = c # r \<and> is_digit c \<and> v = digit_value c \<and> t = advance 1 s"
  unfolding digitP_def mapP_Success by (auto dest: predP_SuccessD)

lemma stable_digitP: "remaining s \<noteq> [] \<Longrightarrow> stable digitP s"
  unfolding digitP_def by (intro stable_mapP stable_predP)

lemma many_run_end_nonempty:
  assumes "many_run p u ys t" "remaining t \<noteq> []"
    and "\<And>u v u'. p u = Some (Success v u') \<Longrightarrow> remaining u \<noteq> []"
  shows "remaining u \<noteq> []"
  using assms(1)
proof (cases rule: many_run.cases)
  case (stop r)
  with assms(2) show ?thesis by simp
next
  case (step r ys')
  then obtain v u' where "p u = Some (Success v u')" by (cases r) auto
  then show ?thesis by (rule assms(3))
qed

lemma manyP_keep_local:
  assumes "manyP p s = Some (Success xs t)" "remaining t \<noteq> []"
    and loc: "\<And>u. remaining u \<noteq> [] \<Longrightarrow> stable p u"
    and ne: "\<And>u v u'. p u = Some (Success v u') \<Longrightarrow> remaining u \<noteq> []"
  shows "manyP p (extend x s) = Some (Success xs (extend x t))"
proof -
  from manyP_many_run [OF assms(1)] have run: "many_run p s xs t" by simp
  show ?thesis
    by (rule many_run_stable [OF run]) (rule loc, rule many_run_end_nonempty [OF _ assms(2) ne])
qed

lemma spaces_keep:
  assumes "spaces s = Some (Success ws t)" "remaining t \<noteq> []"
  shows "spaces (extend x s) = Some (Success ws (extend x t))"
  using assms unfolding spaces_def space_predP
  by (rule manyP_keep_local) (auto intro: stable_predP dest: predP_SuccessD)

lemma manyP_digitP_keep:
  assumes "manyP digitP s = Some (Success ds t)" "remaining t \<noteq> []"
  shows "manyP digitP (extend x s) = Some (Success ds (extend x t))"
  using assms by (rule manyP_keep_local) (auto intro: stable_digitP dest: digitP_SuccessD)

lemma manyP_predP_total:
  assumes "wf_state s"
  shows "\<exists>cs. manyP (predP f) s = Some (Success cs (advance (length cs) s))"
proof -
  let ?cs = "takeWhile f (remaining s)" and ?r = "dropWhile f (remaining s)"
  have "manyP (predP f) s = Some (Success ?cs (advance (length ?cs) s))"
  proof (rule manyP_predP_run [OF _ assms, where r = ?r])
    show "\<forall>c \<in> set ?cs. f c" by (auto dest: set_takeWhileD)
    show "remaining s = ?cs @ ?r" by simp
    show "?r = [] \<or> \<not> f (hd ?r)" using hd_dropWhile [of f "remaining s"] by blast
  qed
  then show ?thesis by blast
qed

lemma spaces_total: "wf_state s \<Longrightarrow> \<exists>ws t. spaces s = Some (Success ws t)"
  unfolding spaces_def space_predP using manyP_predP_total [of s is_space] by blast

lemma manyP_digitP_total:
  assumes "wf_state s"
  shows "\<exists>ds t. manyP digitP s = Some (Success ds t)"
proof -
  let ?cs = "takeWhile is_digit (remaining s)" and ?r = "dropWhile is_digit (remaining s)"
  have "manyP digitP s = Some (Success (map digit_value ?cs) (advance (length ?cs) s))"
  proof (rule manyP_digits [OF _ assms, where r = ?r])
    show "\<forall>c \<in> set ?cs. is_digit c" by (auto dest: set_takeWhileD)
    show "remaining s = ?cs @ ?r" by simp
    show "?r = [] \<or> \<not> is_digit (hd ?r)" using hd_dropWhile [of is_digit "remaining s"] by blast
  qed
  then show ?thesis by blast
qed

lemma stringP_SuccessD:
  "stringP (c # cs) s = Some (Success v t)
   \<Longrightarrow> \<exists>r. remaining s = c # r \<and> stringP cs (advance 1 s) = Some (Success cs t) \<and> v = c # cs"
proof -
  assume a: "stringP (c # cs) s = Some (Success v t)"
  then obtain rc where rc: "charP c s = Some rc" and s: "success rc"
    by (auto simp: stringP.simps(2) split: bind_splits if_splits)
  then obtain v' t' where "rc = Success v' t'" by (cases rc) auto
  with rc charP_SuccessD [of c s v' t'] obtain r where
    r: "remaining s = c # r" "charP c s = Some (Success c (advance 1 s))" by auto
  with a obtain rs where "stringP cs (advance 1 s) = Some rs" "success rs" "v = c # cs" "t = state rs"
    by (auto simp: stringP.simps(2) split: bind_splits if_splits)
  moreover have "\<And>w u. stringP cs (advance 1 s) = Some (Success w u) \<Longrightarrow> w = cs"
    by (cases cs) (auto simp: stringP.simps(2) split: bind_splits if_splits)
  ultimately show ?thesis using r by (cases rs) auto
qed

lemma stringP_keep:
  "stringP str s = Some (Success v t) \<Longrightarrow> stringP str (extend x s) = Some (Success v (extend x t))"
proof (induction str arbitrary: s v)
  case Nil
  then show ?case by auto
next
  case (Cons c cs)
  from stringP_SuccessD [OF Cons.prems] obtain r where r: "remaining s = c # r"
    and cs: "stringP cs (advance 1 s) = Some (Success cs t)" and v: "v = c # cs" by blast
  from Cons.IH [OF cs] charP_Cons [OF remaining_extend [OF r], of c x] v
  show ?case by (simp add: stringP.simps(2))
qed

lemma digitP_Cons:
  "remaining s = c # r \<Longrightarrow> digitP s =
     Some (if is_digit c then Success (digit_value c) (advance 1 s)
           else Failure (advance 1 s) [''unexpect '' @ [c]])"
  by (simp add: digitP_def mapP_case predP_Cons)

lemma natP_SuccessD:
  assumes "natP s = Some (Success n u)"
  shows "\<exists>c r ds. remaining s = c # r \<and> is_digit c \<and>
     manyP digitP (advance 1 s) = Some (Success ds u) \<and> n = digits_value (digit_value c # ds)"
proof -
  from assms obtain d u1 ds where "digitP s = Some (Success d u1)"
    "manyP digitP u1 = Some (Success ds u)" "n = digits_value (d # ds)"
    unfolding natP_def someP_def mapP_Success andP_Success by blast
  with digitP_SuccessD [of s d u1] show ?thesis by blast
qed

lemma natP_Cons_digit:
  assumes "remaining s = c # r" "is_digit c" "manyP digitP (advance 1 s) = Some (Success ds u)"
  shows "natP s = Some (Success (digits_value (digit_value c # ds)) u)"
  using assms by (simp add: natP_def someP_def mapP_case andP_case digitP_Cons)

lemma natP_keep:
  assumes "natP s = Some (Success n u)" "remaining u \<noteq> []"
  shows "natP (extend x s) = Some (Success n (extend x u))"
proof -
  from natP_SuccessD [OF assms(1)] obtain c r ds where r: "remaining s = c # r" and c: "is_digit c"
    and ds: "manyP digitP (advance 1 s) = Some (Success ds u)"
    and n: "n = digits_value (digit_value c # ds)" by blast
  from manyP_digitP_keep [OF ds assms(2), of x]
  have "manyP digitP (advance 1 (extend x s)) = Some (Success ds (extend x u))" by simp
  from natP_Cons_digit [OF remaining_extend [OF r] c this] n show ?thesis by simp
qed

lemma natP_weak:
  assumes "natP s = Some (Success n u)"
  shows "\<exists>n' u'. natP (extend x s) = Some (Success n' u')"
proof -
  from natP_SuccessD [OF assms(1)] obtain c r where r: "remaining s = c # r" and c: "is_digit c"
    by blast
  from remaining_Cons(4) [OF r] have "wf_state (advance 1 (extend x s))"
    by (simp add: wf_extend)
  from manyP_digitP_total [OF this] obtain ds u' where
    "manyP digitP (advance 1 (extend x s)) = Some (Success ds u')" by blast
  from natP_Cons_digit [OF remaining_extend [OF r] c this] show ?thesis by blast
qed

lemma minus_no_digit: "\<not> is_digit CHR ''-''" and dot_no_digit: "\<not> is_digit CHR ''.''"
  by (simp_all add: is_digit_def less_eq_char_def)

lemma intP_Cons_minus:
  assumes "remaining s = CHR ''-'' # r"
  shows "intP s = (case natP (advance 1 s) of None \<Rightarrow> None
     | Some (Success n u) \<Rightarrow> Some (Success (- n) u)
     | Some (Failure t e) \<Rightarrow> Some (Failure (advance 1 s) [''unexpect -'']))"
  using assms natP_first [OF assms minus_no_digit]
  by (simp add: intP_def orP_case mapP_case rightP_def andP_case charP_Cons
      split: option.splits ParseResult.splits)

lemma intP_Cons_digit:
  assumes "remaining s = c # r" "is_digit c"
  shows "intP s = natP s"
proof -
  from assms(2) minus_no_digit have "c \<noteq> CHR ''-''" by auto
  with assms(1) show ?thesis
    by (simp add: intP_def orP_case mapP_case rightP_def andP_case charP_Cons)
qed

lemma intP_SuccessD:
  assumes "intP s = Some (Success i u)"
  shows "(\<exists>r n. remaining s = CHR ''-'' # r \<and> natP (advance 1 s) = Some (Success n u) \<and> i = - n)
    \<or> (\<exists>c r. remaining s = c # r \<and> is_digit c \<and> natP s = Some (Success i u))"
proof -
  from assms consider
    (neg) "mapP (rightP (charP CHR ''-'') natP) uminus s = Some (Success i u)"
    | (pos) "natP s = Some (Success i u)"
    unfolding intP_def orP2_Success by auto
  then show ?thesis
  proof cases
    case neg
    then obtain n a t1 where "charP CHR ''-'' s = Some (Success a t1)"
      "natP t1 = Some (Success n u)" "i = - n"
      unfolding mapP_Success rightP_Success by blast
    with charP_SuccessD [of "CHR ''-''" s a t1] show ?thesis by auto
  next
    case pos
    with natP_SuccessD [OF pos] show ?thesis by blast
  qed
qed

lemma intP_keep:
  assumes "intP s = Some (Success i u)" "remaining u \<noteq> []"
  shows "intP (extend x s) = Some (Success i (extend x u))"
  using intP_SuccessD [OF assms(1)]
proof (elim disjE exE conjE)
  fix r n assume r: "remaining s = CHR ''-'' # r" and n: "natP (advance 1 s) = Some (Success n u)"
    and i: "i = - n"
  from natP_keep [OF n assms(2), of x] i show ?thesis
    by (simp add: intP_Cons_minus [OF remaining_extend [OF r]])
next
  fix c r assume r: "remaining s = c # r" and c: "is_digit c" and n: "natP s = Some (Success i u)"
  from natP_keep [OF n assms(2), of x] show ?thesis
    by (simp add: intP_Cons_digit [OF remaining_extend [OF r] c])
qed

lemma intP_weak:
  assumes "intP s = Some (Success i u)"
  shows "\<exists>i' u'. intP (extend x s) = Some (Success i' u')"
  using intP_SuccessD [OF assms(1)]
proof (elim disjE exE conjE)
  fix r n assume r: "remaining s = CHR ''-'' # r" and n: "natP (advance 1 s) = Some (Success n u)"
  from natP_weak [OF n, of x] show ?thesis
    by (auto simp: intP_Cons_minus [OF remaining_extend [OF r]])
next
  fix c r assume r: "remaining s = c # r" and c: "is_digit c" and n: "natP s = Some (Success i u)"
  from natP_weak [OF n, of x] show ?thesis
    by (simp add: intP_Cons_digit [OF remaining_extend [OF r] c])
qed

lemma someP_digitP_SuccessD:
  assumes "someP digitP s = Some (Success ds t)"
  shows "\<exists>c r ds'. remaining s = c # r \<and> is_digit c \<and>
     manyP digitP (advance 1 s) = Some (Success ds' t) \<and> ds = digit_value c # ds'"
proof -
  from assms obtain d u1 ds' where "digitP s = Some (Success d u1)"
    "manyP digitP u1 = Some (Success ds' t)" "ds = d # ds'"
    unfolding someP_def andP_Success by blast
  with digitP_SuccessD [of s d u1] show ?thesis by blast
qed

lemma someP_digitP_keep:
  assumes "someP digitP s = Some (Success ds t)" "remaining t \<noteq> []"
  shows "someP digitP (extend x s) = Some (Success ds (extend x t))"
proof -
  from someP_digitP_SuccessD [OF assms(1)] obtain c r ds' where r: "remaining s = c # r"
    and c: "is_digit c" and m: "manyP digitP (advance 1 s) = Some (Success ds' t)"
    and ds: "ds = digit_value c # ds'" by blast
  from manyP_digitP_keep [OF m assms(2), of x] c ds show ?thesis
    by (simp add: someP_def andP_case digitP_Cons [OF remaining_extend [OF r]])
qed

lemma someP_digitP_returns:
  assumes "wf_state s"
  shows "\<exists>res. someP digitP s = Some res"
proof (cases "remaining s")
  case Nil
  with assms show ?thesis by (simp add: someP_def andP_case digitP_def mapP_case predP_Nil)
next
  case (Cons c r)
  from manyP_digitP_total [OF remaining_Cons(4) [OF Cons]] Cons show ?thesis
    by (auto simp: someP_def andP_case digitP_Cons)
qed

lemma fraction_returns:
  assumes "wf_state s"
  shows "\<exists>res. rightP (charP CHR ''.'') (mapP (someP digitP) f) s = Some res"
proof (cases "remaining s")
  case Nil
  with assms show ?thesis by (simp add: rightP_def andP_case charP_def predP_Nil)
next
  case (Cons c r)
  from someP_digitP_returns [OF remaining_Cons(4) [OF Cons]] Cons show ?thesis
    by (auto simp: rightP_def andP_case mapP_case charP_Cons
        split: option.splits ParseResult.splits)
qed

lemma doubleP_SuccessD:
  assumes "doubleP rnd s = Some (Success v t)"
  shows "(\<exists>i u r ds. intP s = Some (Success i u) \<and> remaining u = CHR ''.'' # r \<and>
            someP digitP (advance 1 u) = Some (Success ds t) \<and>
            v = rnd (to_double i + fracP rnd ds))
       \<or> (\<exists>i. intP s = Some (Success i t) \<and> v = to_double i)"
proof -
  from assms consider
    (frac) "andP intP (rightP (charP CHR ''.'') (mapP (someP digitP) (fracP rnd)))
              (\<lambda>x y. rnd (to_double x + y)) s = Some (Success v t)"
    | (int) "mapP intP (\<lambda>x. to_double x) s = Some (Success v t)"
    unfolding doubleP_def orP2_Success by auto
  then show ?thesis
  proof cases
    case frac
    then obtain i u y a u1 ds where "intP s = Some (Success i u)"
      "charP CHR ''.'' u = Some (Success a u1)" "someP digitP u1 = Some (Success ds t)"
      "y = fracP rnd ds" "v = rnd (to_double i + y)"
      unfolding andP_Success rightP_Success mapP_Success by blast
    with charP_SuccessD [of "CHR ''.''" u a u1] show ?thesis by auto
  next
    case int
    then show ?thesis unfolding mapP_Success by blast
  qed
qed

lemma doubleP_keep:
  assumes "doubleP rnd s = Some (Success v t)" "remaining t = c # r" "c \<noteq> CHR ''.''"
  shows "doubleP rnd (extend x s) = Some (Success v (extend x t))"
  using doubleP_SuccessD [OF assms(1)]
proof (elim disjE exE conjE)
  fix i u r' ds
  assume i: "intP s = Some (Success i u)" and u: "remaining u = CHR ''.'' # r'"
    and ds: "someP digitP (advance 1 u) = Some (Success ds t)"
    and v: "v = rnd (to_double i + fracP rnd ds)"
  from u have "remaining u \<noteq> []" by simp
  note 1 = intP_keep [OF i this, of x]
  from assms(2) have "remaining t \<noteq> []" by simp
  from someP_digitP_keep [OF ds this, of x]
  have 2: "someP digitP (advance 1 (extend x u)) = Some (Success ds (extend x t))" by simp
  from 1 2 v show ?thesis
    by (simp add: doubleP_def orP_case andP_case rightP_def mapP_case
        charP_Cons [OF remaining_extend [OF u]])
next
  fix i assume i: "intP s = Some (Success i t)" and v: "v = to_double i"
  from assms(2) have "remaining t \<noteq> []" by simp
  note 1 = intP_keep [OF i this, of x]
  from 1 v assms(3) show ?thesis
    by (simp add: doubleP_def orP_case andP_case rightP_def mapP_case
        charP_Cons [OF remaining_extend [OF assms(2)]])
qed

lemma intP_Success_wf:
  assumes "intP s = Some (Success i u)" "wf_state s"
  shows "wf_state u"
  using in_boundsD [OF in_bounds_intP assms(2,1)] by simp

lemma doubleP_weak:
  assumes "doubleP rnd s = Some (Success v t)" "wf_state s"
  shows "\<exists>v' t'. doubleP rnd (extend x s) = Some (Success v' t')"
proof -
  from doubleP_SuccessD [OF assms(1)] obtain i u where "intP s = Some (Success i u)" by blast
  from intP_weak [OF this, of x] obtain i' u' where i: "intP (extend x s) = Some (Success i' u')"
    by blast
  from intP_Success_wf [OF i wf_extend [OF assms(2)]] have "wf_state u'" .
  from fraction_returns [OF this, of "fracP rnd"] obtain res where
    "rightP (charP CHR ''.'') (mapP (someP digitP) (fracP rnd)) u' = Some res" by blast
  with i show ?thesis
    by (cases res) (simp_all add: doubleP_def orP_case andP_case mapP_case)
qed

lemma trimP_SuccessI:
  "spaces s = Some (Success ws s1) \<Longrightarrow> p s1 = Some (Success v t1)
   \<Longrightarrow> spaces t1 = Some (Success ws' t) \<Longrightarrow> trimP p s = Some (Success v t)"
  unfolding trimP_Success by blast

lemma spaces_in_bounds: "spaces s = Some (Success ws t) \<Longrightarrow> wf_state t"
  using in_boundsD [OF in_bounds_spaces spaces_Some_wf, of s "Success ws t"] by simp

lemma trimP_keep:
  assumes "trimP p s = Some (Success v t)" "remaining t \<noteq> []"
    and ne: "\<And>s1 t1. p s1 = Some (Success v t1) \<Longrightarrow> remaining s1 \<noteq> []"
    and keep: "\<And>s1 t1 ws'. p s1 = Some (Success v t1) \<Longrightarrow> spaces t1 = Some (Success ws' t)
       \<Longrightarrow> p (extend x s1) = Some (Success v (extend x t1))"
  shows "trimP p (extend x s) = Some (Success v (extend x t))"
proof -
  from assms(1) obtain ws s1 t1 ws' where 1: "spaces s = Some (Success ws s1)"
    and 2: "p s1 = Some (Success v t1)" and 3: "spaces t1 = Some (Success ws' t)"
    unfolding trimP_Success by blast
  show ?thesis
    by (rule trimP_SuccessI [where p = p, OF spaces_keep [OF 1 ne [OF 2], of x] keep [OF 2 3]
          spaces_keep [OF 3 assms(2), of x]])
qed

lemma trimP_weak:
  assumes "trimP p s = Some (Success v t)" "in_bounds p"
    and ne: "\<And>s1 t1. p s1 = Some (Success v t1) \<Longrightarrow> remaining s1 \<noteq> []"
    and weak: "\<And>s1 t1. p s1 = Some (Success v t1) \<Longrightarrow> wf_state s1
       \<Longrightarrow> \<exists>v' t1'. p (extend x s1) = Some (Success v' t1')"
  shows "\<exists>v' t'. trimP p (extend x s) = Some (Success v' t')"
proof -
  from assms(1) obtain ws s1 t1 ws' where 1: "spaces s = Some (Success ws s1)"
    and 2: "p s1 = Some (Success v t1)"
    unfolding trimP_Success by blast
  note s1 = spaces_in_bounds [OF 1]
  from weak [OF 2 s1] obtain v' t1' where 3: "p (extend x s1) = Some (Success v' t1')" by blast
  from in_boundsD [OF assms(2) wf_extend [OF s1] 3] have "wf_state t1'" by simp
  from spaces_total [OF this] obtain ws' t' where 4: "spaces t1' = Some (Success ws' t')" by blast
  from trimP_SuccessI [where p = p, OF spaces_keep [OF 1 ne [OF 2], of x] 3 4] show ?thesis by blast
qed

text \<open>The six alternatives without their surrounding white space.\<close>

lemma null_core_first:
  "mapP (stringP ''null'') f s = Some (Success v t) \<Longrightarrow> \<exists>r. remaining s = CHR ''n'' # r"
  unfolding mapP_Success by (auto dest: stringP_SuccessD)

lemma null_core_keep:
  "mapP (stringP ''null'') f s = Some (Success v t)
   \<Longrightarrow> mapP (stringP ''null'') f (extend x s) = Some (Success v (extend x t))"
  unfolding mapP_Success by (auto dest: stringP_keep)

lemma bool_core_first:
  assumes "orP (mapP (stringP ''true'') f) [mapP (stringP ''false'') g] s = Some (Success v t)"
  shows "\<exists>c r. remaining s = c # r \<and> (c = CHR ''t'' \<or> c = CHR ''f'')"
  using assms unfolding orP2_Success mapP_Success by (auto dest: stringP_SuccessD)

lemma bool_core_keep:
  assumes "orP (mapP (stringP ''true'') f) [mapP (stringP ''false'') g] s = Some (Success v t)"
  shows "orP (mapP (stringP ''true'') f) [mapP (stringP ''false'') g] (extend x s)
    = Some (Success v (extend x t))"
proof -
  from assms consider (t) "mapP (stringP ''true'') f s = Some (Success v t)"
    | (f) "mapP (stringP ''false'') g s = Some (Success v t)"
    unfolding orP2_Success by blast
  then show ?thesis
  proof cases
    case t
    then have "mapP (stringP ''true'') f (extend x s) = Some (Success v (extend x t))"
      unfolding mapP_Success by (auto dest: stringP_keep)
    then show ?thesis by (simp add: orP_case)
  next
    case f
    then obtain r where r: "remaining s = CHR ''f'' # r"
      unfolding mapP_Success by (auto dest: stringP_SuccessD)
    from f have "mapP (stringP ''false'') g (extend x s) = Some (Success v (extend x t))"
      unfolding mapP_Success by (auto dest: stringP_keep)
    moreover have "stringP ''true'' (extend x s)
        = Some (Failure (advance 1 (extend x s)) [''unexpect '' @ [CHR ''f'']])"
      by (rule stringP_first [OF remaining_extend [OF r]]) simp
    ultimately show ?thesis by (simp add: orP_case mapP_case)
  qed
qed

lemma num_core_first:
  assumes "mapP (doubleP rnd) f s = Some (Success v t)"
  shows "\<exists>c r. remaining s = c # r \<and> (c = CHR ''-'' \<or> is_digit c)"
proof -
  from assms obtain d where "doubleP rnd s = Some (Success d t)" unfolding mapP_Success by blast
  from doubleP_SuccessD [OF this] obtain i u where "intP s = Some (Success i u)" by blast
  from intP_SuccessD [OF this] show ?thesis by blast
qed

lemma spaces_start:
  assumes "spaces t1 = Some (Success ws t)" "remaining t = c # r" "c \<noteq> CHR ''.''"
  shows "\<exists>c1 r1. remaining t1 = c1 # r1 \<and> c1 \<noteq> CHR ''.''"
proof -
  from manyP_many_run [OF assms(1) [unfolded spaces_def space_predP]]
  have "many_run (predP is_space) t1 ws t" by simp
  then show ?thesis
  proof (cases rule: many_run.cases)
    case (stop r')
    with assms(2,3) show ?thesis by simp
  next
    case (step r' ys)
    then obtain v u where "predP is_space t1 = Some (Success v u)" by (cases r') auto
    from predP_SuccessD [OF this] show ?thesis by (auto simp: is_space_def)
  qed
qed

lemma num_core_keep:
  assumes "mapP (doubleP rnd) f s = Some (Success v t1)" "spaces t1 = Some (Success ws t)"
    "remaining t = c # r" "c \<noteq> CHR ''.''"
  shows "mapP (doubleP rnd) f (extend x s) = Some (Success v (extend x t1))"
proof -
  from spaces_start [OF assms(2-4)] obtain c1 r1 where "remaining t1 = c1 # r1" "c1 \<noteq> CHR ''.''"
    by blast
  with assms(1) show ?thesis
    unfolding mapP_Success by (auto dest: doubleP_keep)
qed

lemma num_core_weak:
  assumes "mapP (doubleP rnd) f s = Some (Success v t)" "wf_state s"
  shows "\<exists>v' t'. mapP (doubleP rnd) f (extend x s) = Some (Success v' t')"
  using assms unfolding mapP_Success by (auto dest: doubleP_weak [where x = x])

lemma str_charP_Nil:
  "wf_state u \<Longrightarrow> remaining u = [] \<Longrightarrow> str_charP u = Some (Failure u [''end of file''])"
  by (simp add: orP_case rightP_def andP_case charP_def predP_Nil)

lemma str_charP_backslash_end:
  assumes "remaining u = [CHR 0x5C]"
  shows "str_charP u = Some (Success (CHR 0x5C) (advance 1 u))"
proof -
  from remaining_Cons(3,4) [OF assms]
  have "idP (advance 1 u) = Some (Failure (advance 1 u) [''end of file''])"
    by (intro idP_Nil)
  with assms show ?thesis
    by (simp add: orP_case rightP_def andP_case charP_Cons escapeP_def mapP_case predP_Cons)
qed

lemma str_charP_Some_wf: "str_charP u = Some res \<Longrightarrow> wf_state u"
  by (auto simp: orP_case rightP_def andP_case charP_def dest: predP_Some_wf
      split: option.splits)

lemma str_charP_stable:
  assumes "remaining u = d # r" "d = CHR 0x5C \<longrightarrow> r \<noteq> []"
  shows "stable str_charP u"
proof (intro stable_orP stable_rightP stable_orP1 stable_predP stable_charP)
  from assms(1) show "remaining u \<noteq> []" "remaining u \<noteq> []" by simp_all
next
  fix a t assume "charP CHR 0x5C u = Some (Success a t)"
  from charP_SuccessD [OF this] assms remaining_Cons(3) [OF assms(1)]
  have "remaining t \<noteq> []" by auto
  then show "stable escapeP t"
    unfolding escapeP_def by (intro stable_mapP stable_idP)
qed

lemma str_run_state:
  assumes "many_run str_charP u ys t" "remaining t = CHR 0x22 # r2"
  shows "\<exists>d r. remaining u = d # r \<and> (d = CHR 0x5C \<longrightarrow> r \<noteq> [])"
  using assms(1)
proof (cases rule: many_run.cases)
  case (stop res)
  with assms(2) show ?thesis by simp
next
  case (step res ys')
  from str_charP_Some_wf [OF step(2)] have wf: "wf_state u" .
  show ?thesis
  proof (cases "remaining u")
    case Nil
    from str_charP_Nil [OF wf Nil] step show ?thesis by simp
  next
    case (Cons d r)
    have "\<not> (d = CHR 0x5C \<and> r = [])"
    proof
      assume "d = CHR 0x5C \<and> r = []"
      with Cons have e: "remaining u = [CHR 0x5C]" by simp
      from str_charP_backslash_end [OF e] step have res: "state res = advance 1 u" by simp
      from remaining_Cons(3,4) [OF e]
      have "str_charP (advance 1 u) = Some (Failure (advance 1 u) [''end of file''])"
        by (intro str_charP_Nil)
      from many_run_failsD [OF step(4) [unfolded res] this] remaining_Cons(3) [OF e] assms(2)
      show False by simp
    qed
    with Cons show ?thesis by blast
  qed
qed

lemma str_core_first: "str_coreP s = Some (Success v t) \<Longrightarrow> \<exists>r. remaining s = CHR 0x22 # r"
  unfolding betweenP_Success by (auto dest: charP_SuccessD)

lemma str_core_keep:
  assumes "str_coreP s = Some (Success v t)"
  shows "str_coreP (extend x s) = Some (Success v (extend x t))"
proof -
  from assms obtain a s1 t1 b cs where 1: "charP CHR 0x22 s = Some (Success a s1)"
    and 2: "manyP str_charP s1 = Some (Success cs t1)"
    and v: "v = foldl (\<lambda>s x. s @ [x]) [] cs"
    and 3: "charP CHR 0x22 t1 = Some (Success b t)"
    unfolding betweenP_Success mapP_Success by blast
  from charP_SuccessD [OF 1] obtain r where r: "remaining s = CHR 0x22 # r" and s1: "s1 = advance 1 s"
    by blast
  from charP_SuccessD [OF 3] obtain r1 where r1: "remaining t1 = CHR 0x22 # r1"
    and t: "t = advance 1 t1" by blast
  from manyP_many_run [OF 2] have run: "many_run str_charP s1 cs t1" by simp
  have 4: "manyP str_charP (extend x s1) = Some (Success cs (extend x t1))"
  proof (rule many_run_stable [OF run])
    fix u ys assume "many_run str_charP u ys t1"
    from str_run_state [OF this r1] obtain d r' where "remaining u = d # r'"
      "d = CHR 0x5C \<longrightarrow> r' \<noteq> []" by blast
    then show "stable str_charP u" by (rule str_charP_stable)
  qed
  from 4 s1 t v show ?thesis
    by (simp add: betweenP_def rightP_def leftP_def andP_case mapP_case
        charP_Cons [OF remaining_extend [OF r]] charP_Cons [OF remaining_extend [OF r1]])
qed

lemma escapeStrP_keep:
  assumes "escapeStrP s = Some (Success v t)" "remaining t \<noteq> []"
  shows "escapeStrP (extend x s) = Some (Success v (extend x t))"
  using assms unfolding escapeStrP_def
  by (rule trimP_keep) (auto dest: str_core_first str_core_keep)

lemma in_bounds_str_coreP: "in_bounds str_coreP"
  by (intro in_bounds_intros in_bounds_orP) (simp_all add: escapeP_def in_bounds_intros)

lemma escapeStrP_weak:
  assumes "escapeStrP s = Some (Success v t)"
  shows "\<exists>v' t'. escapeStrP (extend x s) = Some (Success v' t')"
  using assms in_bounds_str_coreP unfolding escapeStrP_def
  by (rule trimP_weak) (auto dest: str_core_first str_core_keep)

lemma escapeStrP_SuccessD:
  assumes "escapeStrP s = Some (Success v t)"
  shows "\<exists>ws s1 r. spaces s = Some (Success ws s1) \<and> remaining s1 = CHR 0x22 # r"
  using assms unfolding escapeStrP_def trimP_Success by (auto dest: str_core_first)

lemma comma_run_state:
  assumes "many_run (rightP (charP CHR '','') p) u ys t" "remaining t = d # r"
  shows "\<exists>c r'. remaining u = c # r' \<and> (c = CHR '','' \<or> c = d)"
  using assms(1)
proof (cases rule: many_run.cases)
  case (stop res)
  with assms(2) show ?thesis by simp
next
  case (step res ys')
  then obtain v u' where "rightP (charP CHR '','') p u = Some (Success v u')"
    by (cases res) auto
  then show ?thesis unfolding rightP_Success by (auto dest: charP_SuccessD)
qed

lemma elements_keep:
  assumes keep: "\<And>s v t c r. p s = Some (Success v t) \<Longrightarrow> remaining t = c # r
      \<Longrightarrow> c = CHR '','' \<or> c = d \<Longrightarrow> p (extend x s) = Some (Success v (extend x t))"
    and d: "d \<noteq> CHR '',''"
    and run: "andP p (manyP (rightP (charP CHR '','') p)) f s = Some (Success v t)"
    and t: "remaining t = d # r"
  shows "andP p (manyP (rightP (charP CHR '','') p)) f (extend x s) = Some (Success v (extend x t))"
proof -
  let ?q = "rightP (charP CHR '','') p"
  from run obtain a u xs where a: "p s = Some (Success a u)"
    and xs: "manyP ?q u = Some (Success xs t)" and v: "v = f a xs"
    unfolding andP_Success by blast
  from manyP_many_run [OF xs] have mr: "many_run ?q u xs t" by simp
  from comma_run_state [OF mr t] obtain c r' where "remaining u = c # r'" "c = CHR '','' \<or> c = d"
    by blast
  from keep [OF a this] have 1: "p (extend x s) = Some (Success a (extend x u))" .
  have 2: "manyP ?q (extend x u) = Some (Success xs (extend x t))"
  proof (rule many_run_keep [OF mr])
    fix u' ys res assume mr': "many_run ?q u' ys t" and res: "?q u' = Some res"
    from comma_run_state [OF mr' t] obtain c' r'' where c': "remaining u' = c' # r''" by blast
    note e = remaining_extend [OF c', of x]
    show "?q (extend x u') = Some (extend_result x res)"
    proof (cases "c' = CHR '',''")
      case False
      with res c' e show ?thesis
        by (auto simp: rightP_def andP_case charP_Cons)
    next
      case True
      with res c' obtain rp where rp: "p (advance 1 u') = Some rp"
        by (auto simp: rightP_def andP_case charP_Cons split: option.splits)
      show ?thesis
      proof (cases rp)
        case (Failure t' e')
        with rp True c' have "?q u' = Some (Failure t' e')"
          by (simp add: rightP_def andP_case charP_Cons)
        from many_run_failsD [OF mr' this] c' t True d show ?thesis by simp
      next
        case (Success y u'')
        with rp True c' have q: "?q u' = Some (Success y u'')"
          by (simp add: rightP_def andP_case charP_Cons)
        from mr' have "\<exists>ys'. many_run ?q u'' ys' t"
        proof (cases rule: many_run.cases)
          case (stop r0)
          with q show ?thesis by simp
        next
          case (step r0 ys')
          with q show ?thesis by auto
        qed
        then obtain ys' where "many_run ?q u'' ys' t" ..
        from comma_run_state [OF this t] obtain c'' r3 where "remaining u'' = c'' # r3"
          "c'' = CHR '','' \<or> c'' = d" by blast
        from keep [OF rp [unfolded Success] this]
        have "p (advance 1 (extend x u')) = Some (Success y (extend x u''))" by simp
        with True e have "?q (extend x u') = Some (Success y (extend x u''))"
          by (simp add: rightP_def andP_case charP_Cons)
        moreover from q res have "res = Success y u''" by simp
        ultimately show ?thesis by simp
      qed
    qed
  qed
  from 1 2 v show ?thesis by (simp add: andP_case)
qed

lemma lazyP_const: "lazyP (\<lambda>_. p) = p"
  by (simp add: lazyP_def)

lemma arr_core_keep:
  assumes IH: "\<And>s v t c r. jsonP rnd n s = Some (Success v t) \<Longrightarrow> remaining t = c # r
      \<Longrightarrow> c \<noteq> CHR ''.'' \<Longrightarrow> jsonP rnd n (extend x s) = Some (Success v (extend x t))"
    and run: "arr_coreP rnd n s = Some (Success v t)"
  shows "arr_coreP rnd n (extend x s) = Some (Success v (extend x t))"
proof -
  let ?A = "andP (jsonP rnd n) (manyP (rightP (charP CHR '','') (jsonP rnd n)))
      (\<lambda>x xs. JSON_ARRAY (x # xs))"
  from run obtain a s1 t1 b where 1: "charP CHR ''['' s = Some (Success a s1)"
    and 2: "orP ?A [pureP (JSON_ARRAY [])] s1 = Some (Success v t1)"
    and 3: "charP CHR '']'' t1 = Some (Success b t)"
    unfolding betweenP_Success lazyP_const by blast
  from charP_SuccessD [OF 1] obtain r where r: "remaining s = CHR ''['' # r" and s1: "s1 = advance 1 s"
    by blast
  from charP_SuccessD [OF 3] obtain r1 where r1: "remaining t1 = CHR '']'' # r1"
    and t: "t = advance 1 t1" by blast
  from 2 consider (A) "?A s1 = Some (Success v t1)"
    | (B) t' e where "?A s1 = Some (Failure t' e)" "pureP (JSON_ARRAY []) s1 = Some (Success v t1)"
    unfolding orP2_Success by blast
  then have 4: "orP ?A [pureP (JSON_ARRAY [])] (extend x s1) = Some (Success v (extend x t1))"
  proof cases
    case A
    have "?A (extend x s1) = Some (Success v (extend x t1))"
    proof (rule elements_keep [OF _ _ A r1])
      fix s v t c r assume "jsonP rnd n s = Some (Success v t)" "remaining t = c # r"
        "c = CHR '','' \<or> c = CHR '']''"
      then show "jsonP rnd n (extend x s) = Some (Success v (extend x t))"
        by (intro IH) auto
    qed simp
    then show ?thesis by (simp add: orP_case)
  next
    case B
    from B(2) have v: "v = JSON_ARRAY []" "t1 = s1" by (simp_all add: pureP_def)
    have "n \<noteq> 0"
    proof
      assume "n = 0"
      with B(1) show False by (simp add: andP_case jsonP.simps(1))
    qed
    then obtain m where n: "n = Suc m" by (cases n) auto
    have "\<not> is_space CHR '']''" "\<not> starts_value CHR '']''"
      by (simp_all add: is_space_def starts_value_def is_digit_def less_eq_char_def)
    from jsonP_first [OF remaining_extend [OF r1 [unfolded v]] this, of rnd m x]
    show ?thesis unfolding n v by (simp add: orP_case andP_case pureP_def)
  qed
  from 4 s1 t show ?thesis
    unfolding lazyP_const
    by (simp add: betweenP_def rightP_def leftP_def andP_case
        charP_Cons [OF remaining_extend [OF r]] charP_Cons [OF remaining_extend [OF r1]])
qed

lemma itemP_keep:
  assumes IH: "\<And>s v t c r. jsonP rnd n s = Some (Success v t) \<Longrightarrow> remaining t = c # r
      \<Longrightarrow> c \<noteq> CHR ''.'' \<Longrightarrow> jsonP rnd n (extend x s) = Some (Success v (extend x t))"
    and run: "itemP rnd n s = Some (Success kv t)" and t: "remaining t = c # r" "c \<noteq> CHR ''.''"
  shows "itemP rnd n (extend x s) = Some (Success kv (extend x t))"
proof -
  from run obtain k u a u1 v where 1: "escapeStrP s = Some (Success k u)"
    and 2: "charP CHR '':'' u = Some (Success a u1)"
    and 3: "jsonP rnd n u1 = Some (Success v t)" and kv: "kv = (k, v)"
    unfolding itemP.simps lazyP_const andP_Success rightP_Success by blast
  from charP_SuccessD [OF 2] obtain r' where r': "remaining u = CHR '':'' # r'"
    and u1: "u1 = advance 1 u" by blast
  from r' have "remaining u \<noteq> []" by simp
  note 4 = escapeStrP_keep [OF 1 this, of x]
  note 5 = IH [OF 3 t]
  from 4 5 u1 kv show ?thesis
    unfolding itemP.simps lazyP_const
    by (simp add: andP_case rightP_def charP_Cons [OF remaining_extend [OF r']])
qed

lemma obj_core_keep:
  assumes IH: "\<And>s v t c r. jsonP rnd n s = Some (Success v t) \<Longrightarrow> remaining t = c # r
      \<Longrightarrow> c \<noteq> CHR ''.'' \<Longrightarrow> jsonP rnd n (extend x s) = Some (Success v (extend x t))"
    and run: "obj_coreP rnd n s = Some (Success v t)"
  shows "obj_coreP rnd n (extend x s) = Some (Success v (extend x t))"
proof -
  let ?A = "andP (itemP rnd n) (manyP (rightP (charP CHR '','') (itemP rnd n)))
      (\<lambda>x xs. JSON_OBJECT (to_map (x # xs)))"
  from run obtain a s1 t1 b where 1: "charP CHR ''{'' s = Some (Success a s1)"
    and 2: "orP ?A [pureP (JSON_OBJECT [])] s1 = Some (Success v t1)"
    and 3: "charP CHR ''}'' t1 = Some (Success b t)"
    unfolding betweenP_Success by blast
  from charP_SuccessD [OF 1] obtain r where r: "remaining s = CHR ''{'' # r" and s1: "s1 = advance 1 s"
    by blast
  from charP_SuccessD [OF 3] obtain r1 where r1: "remaining t1 = CHR ''}'' # r1"
    and t: "t = advance 1 t1" by blast
  from 2 consider (A) "?A s1 = Some (Success v t1)"
    | (B) "pureP (JSON_OBJECT []) s1 = Some (Success v t1)"
    unfolding orP2_Success by blast
  then have 4: "orP ?A [pureP (JSON_OBJECT [])] (extend x s1) = Some (Success v (extend x t1))"
  proof cases
    case A
    have "?A (extend x s1) = Some (Success v (extend x t1))"
    proof (rule elements_keep [OF _ _ A r1])
      fix s v t c r assume "itemP rnd n s = Some (Success v t)" "remaining t = c # r"
        "c = CHR '','' \<or> c = CHR ''}''"
      then show "itemP rnd n (extend x s) = Some (Success v (extend x t))"
        by (intro itemP_keep [OF IH]) auto
    qed simp
    then show ?thesis by (simp add: orP_case)
  next
    case B
    then have v: "v = JSON_OBJECT []" "t1 = s1" by (simp_all add: pureP_def)
    have "\<not> is_space CHR ''}''" "CHR ''}'' \<noteq> CHR 0x22"
      by (simp_all add: is_space_def)
    from escapeStrP_first [OF remaining_extend [OF r1 [unfolded v]] this, of x]
    show ?thesis unfolding v by (simp add: orP_case andP_case pureP_def itemP.simps)
  qed
  from 4 s1 t show ?thesis
    by (simp add: betweenP_def rightP_def leftP_def andP_case
        charP_Cons [OF remaining_extend [OF r]] charP_Cons [OF remaining_extend [OF r1]])
qed

lemma is_digit_not_start:
  assumes "is_digit c"
  shows "c \<noteq> CHR ''n''" "c \<noteq> CHR ''t''" "c \<noteq> CHR ''f''" "c \<noteq> CHR ''-''" "c \<noteq> CHR 0x22"
    "c \<noteq> CHR ''[''" "c \<noteq> CHR ''{''" "\<not> is_space c"
  using assms by (auto simp: is_digit_def is_space_def less_eq_char_def)

lemma alternative_not_space: "alternative rnd m c = Some q \<Longrightarrow> \<not> is_space c"
  using is_digit_not_start(8) [of c]
  by (auto simp: alternative_def is_space_def split: if_splits)

lemma alternative_skip:
  assumes "alternative rnd m c = Some q" "spaces s = Some (Success ws s1)"
    "spaces s1 = Some (Success [] s1)"
  shows "q s = q s1"
proof -
  note t = trimP_skip_spaces [OF assms(2,3)]
  have "strP s = strP s1" by (simp add: strP_def escapeStrP_def mapP_case t)
  with assms(1) show ?thesis
    by (auto simp: alternative_def nullP_def boolP_def numP_def arrayP.simps objectP.simps t
        split: if_splits)
qed

lemma jsonP_at_alternative:
  assumes r: "remaining s = c # r" and q: "alternative rnd m c = Some q"
    and v: "q s = Some (Success v t)"
  shows "jsonP rnd (Suc m) s = Some (Success v t)"
proof -
  note sp = alternative_not_space [OF q]
  note null = nullP_first [OF r sp] and bool = boolP_first [OF r sp]
    and num = numP_first [OF r sp, of rnd] and str = strP_first [OF r sp]
    and arr = arrayP_first [OF r sp, of rnd m]
  consider (n) "c = CHR ''n''" | (b) "c = CHR ''t'' \<or> c = CHR ''f''" | (m) "c = CHR ''-''"
    | (d) "is_digit c" | (s) "c = CHR 0x22" | (a) "c = CHR ''[''" | (o) "c = CHR ''{''"
    using q by (auto simp: alternative_def split: if_splits)
  then show ?thesis
  proof cases
    case n
    with q v show ?thesis by (simp add: alternative_def jsonP.simps(2) orP_case)
  next
    case b
    with q v null show ?thesis by (auto simp: alternative_def jsonP.simps(2) orP_case)
  next
    case m
    with q v null bool show ?thesis by (simp add: alternative_def jsonP.simps(2) orP_case)
  next
    case d
    note n = is_digit_not_start [OF d]
    from q d n have "q = numP rnd" by (simp add: alternative_def)
    with v null n bool show ?thesis by (simp add: jsonP.simps(2) orP_case)
  next
    case s
    then have "\<not> is_digit c" by (simp add: is_digit_def less_eq_char_def)
    with s q v null bool num show ?thesis by (simp add: alternative_def jsonP.simps(2) orP_case)
  next
    case a
    then have "\<not> is_digit c" by (simp add: is_digit_def less_eq_char_def)
    with a q v null bool num str show ?thesis
      by (simp add: alternative_def jsonP.simps(2) orP_case lazyP_const)
  next
    case o
    then have "\<not> is_digit c" by (simp add: is_digit_def less_eq_char_def)
    with o q v null bool num str arr show ?thesis
      by (simp add: alternative_def jsonP.simps(2) orP_case lazyP_const)
  qed
qed

lemma jsonP_from_alternative:
  assumes "spaces s = Some (Success ws s1)" "remaining s1 = c # r"
    "alternative rnd m c = Some q" "q s = Some (Success v t)"
  shows "jsonP rnd (Suc m) s = Some (Success v t)"
proof -
  note n = spaces_none [OF assms(2) alternative_not_space [OF assms(3)]]
  from alternative_skip [OF assms(3,1) n] assms(4) have "q s1 = Some (Success v t)" by simp
  from jsonP_at_alternative [OF assms(2,3) this] show ?thesis
    unfolding jsonP_skip_spaces [OF assms(1) n] .
qed

lemma orP_Success_member:
  "orP p ps s = Some (Success v t) \<Longrightarrow> \<exists>q \<in> set (p # ps). q s = Some (Success v t)"
  by (induction ps arbitrary: p)
    (auto simp: orP_case split: option.splits ParseResult.splits)

lemma jsonP_SuccessD:
  assumes "jsonP rnd (Suc m) s = Some (Success v t)"
  shows "\<exists>ws s1 c r q. spaces s = Some (Success ws s1) \<and> remaining s1 = c # r \<and>
     alternative rnd m c = Some q \<and> q s = Some (Success v t)"
proof -
  from orP_Success_member [OF assms [unfolded jsonP.simps(2)]]
  consider (n) "nullP s = Some (Success v t)" | (b) "boolP s = Some (Success v t)"
    | (m) "numP rnd s = Some (Success v t)" | (s) "strP s = Some (Success v t)"
    | (a) "arrayP rnd m s = Some (Success v t)" | (o) "objectP rnd m s = Some (Success v t)"
    by (auto simp: lazyP_const)
  then show ?thesis
  proof cases
    case n
    then obtain ws s1 r where "spaces s = Some (Success ws s1)" "remaining s1 = CHR ''n'' # r"
      unfolding nullP_def trimP_Success by (auto dest: null_core_first)
    with n show ?thesis by (auto simp: alternative_def)
  next
    case b
    then obtain ws s1 c r where "spaces s = Some (Success ws s1)" "remaining s1 = c # r"
      "c = CHR ''t'' \<or> c = CHR ''f''"
      unfolding boolP_def trimP_Success by (auto dest: bool_core_first)
    with b show ?thesis by (auto simp: alternative_def)
  next
    case m
    then obtain ws s1 c r where 1: "spaces s = Some (Success ws s1)" "remaining s1 = c # r"
      and c: "c = CHR ''-'' \<or> is_digit c"
      unfolding numP_def trimP_Success by (auto dest: num_core_first)
    from c is_digit_not_start [of c] have "alternative rnd m c = Some (numP rnd)"
      by (auto simp: alternative_def)
    with m 1 show ?thesis by blast
  next
    case s
    then obtain ws s1 r where "spaces s = Some (Success ws s1)" "remaining s1 = CHR 0x22 # r"
      unfolding strP_def mapP_Success by (auto dest: escapeStrP_SuccessD)
    moreover have "alternative rnd m (CHR 0x22) = Some strP"
      by (simp add: alternative_def is_digit_def less_eq_char_def)
    ultimately show ?thesis using s by blast
  next
    case a
    then obtain ws s1 r where "spaces s = Some (Success ws s1)" "remaining s1 = CHR ''['' # r"
      unfolding arrayP.simps trimP_Success betweenP_Success by (auto dest: charP_SuccessD)
    moreover have "alternative rnd m CHR ''['' = Some (arrayP rnd m)"
      by (simp add: alternative_def is_digit_def less_eq_char_def)
    ultimately show ?thesis using a by blast
  next
    case o
    then obtain ws s1 r where "spaces s = Some (Success ws s1)" "remaining s1 = CHR ''{'' # r"
      unfolding objectP.simps trimP_Success betweenP_Success by (auto dest: charP_SuccessD)
    moreover have "alternative rnd m CHR ''{'' = Some (objectP rnd m)"
      by (simp add: alternative_def is_digit_def less_eq_char_def)
    ultimately show ?thesis using o by blast
  qed
qed

lemma arr_core_first: "arr_coreP rnd n s = Some (Success v t) \<Longrightarrow> remaining s \<noteq> []"
  unfolding betweenP_Success by (auto dest: charP_SuccessD)

lemma obj_core_first: "obj_coreP rnd n s = Some (Success v t) \<Longrightarrow> remaining s \<noteq> []"
  unfolding betweenP_Success by (auto dest: charP_SuccessD)

lemma alternative_keep:
  assumes IH: "\<And>s v t c r. jsonP rnd m s = Some (Success v t) \<Longrightarrow> remaining t = c # r
      \<Longrightarrow> c \<noteq> CHR ''.'' \<Longrightarrow> jsonP rnd m (extend x s) = Some (Success v (extend x t))"
    and q: "alternative rnd m c0 = Some q" and run: "q s = Some (Success v t)"
    and t: "remaining t = c # r" "c \<noteq> CHR ''.''"
  shows "q (extend x s) = Some (Success v (extend x t))"
proof -
  from t have ne: "remaining t \<noteq> []" by simp
  from q consider (n) "q = nullP" | (b) "q = boolP" | (m) "q = numP rnd" | (s) "q = strP"
    | (a) "q = arrayP rnd m" | (o) "q = objectP rnd m"
    by (auto simp: alternative_def split: if_splits)
  then show ?thesis
  proof cases
    case n
    from run show ?thesis unfolding n nullP_def
      by (rule trimP_keep [OF _ ne]) (auto dest: null_core_first null_core_keep)
  next
    case b
    from run show ?thesis unfolding b boolP_def
      by (rule trimP_keep [OF _ ne]) (auto dest: bool_core_first bool_core_keep)
  next
    case m
    from run show ?thesis unfolding m numP_def
    proof (rule trimP_keep [OF _ ne])
      fix s1 t1 assume "mapP (doubleP rnd) JSON_NUM s1 = Some (Success v t1)"
      then show "remaining s1 \<noteq> []" by (auto dest: num_core_first)
    next
      fix s1 t1 ws' assume "mapP (doubleP rnd) JSON_NUM s1 = Some (Success v t1)"
        "spaces t1 = Some (Success ws' t)"
      then show "mapP (doubleP rnd) JSON_NUM (extend x s1) = Some (Success v (extend x t1))"
        using t by (rule num_core_keep)
    qed
  next
    case s
    from run obtain k where "escapeStrP s = Some (Success k t)" "v = JSON_STRING k"
      unfolding s strP_def mapP_Success by blast
    with escapeStrP_keep [OF this(1) ne, of x] show ?thesis
      unfolding s strP_def by (simp add: mapP_case)
  next
    case a
    from run show ?thesis unfolding a arrayP.simps
      by (rule trimP_keep [OF _ ne]) (auto dest: arr_core_first intro: arr_core_keep [OF IH])
  next
    case o
    from run show ?thesis unfolding o objectP.simps
      by (rule trimP_keep [OF _ ne]) (auto dest: obj_core_first intro: obj_core_keep [OF IH])
  qed
qed

lemma jsonP_keep:
  "jsonP rnd n s = Some (Success v t) \<Longrightarrow> remaining t = c # r \<Longrightarrow> c \<noteq> CHR ''.''
   \<Longrightarrow> jsonP rnd n (extend x s) = Some (Success v (extend x t))"
proof (induction n arbitrary: s v t c r)
  case 0
  then show ?case by (simp add: jsonP.simps(1))
next
  case (Suc m)
  from jsonP_SuccessD [OF Suc.prems(1)] obtain ws s1 c1 r1 q where
    1: "spaces s = Some (Success ws s1)" and 2: "remaining s1 = c1 # r1"
    and 3: "alternative rnd m c1 = Some q" and 4: "q s = Some (Success v t)" by blast
  from 2 have "remaining s1 \<noteq> []" by simp
  note 5 = spaces_keep [OF 1 this, of x]
  note 6 = alternative_keep [OF Suc.IH 3 4 Suc.prems(2,3)]
  show ?case
    by (rule jsonP_from_alternative [OF 5 remaining_extend [OF 2] 3 6])
qed

lemma in_bounds_cores:
  "in_bounds (mapP (stringP ''null'') f)"
  "in_bounds (orP (mapP (stringP ''true'') g) [mapP (stringP ''false'') h])"
  "in_bounds (mapP (doubleP rnd) k)"
  "in_bounds (arr_coreP rnd m)"
  "in_bounds (obj_coreP rnd m)"
  using in_bounds_json [of rnd m]
  by (auto intro!: in_bounds_intros in_bounds_orP in_bounds_doubleP)

lemma alternative_weak:
  assumes q: "alternative rnd m c0 = Some q" and run: "q s = Some (Success v t)"
  shows "\<exists>v' t'. q (extend x s) = Some (Success v' t')"
proof -
  from q consider (n) "q = nullP" | (b) "q = boolP" | (m) "q = numP rnd" | (s) "q = strP"
    | (a) "q = arrayP rnd m" | (o) "q = objectP rnd m"
    by (auto simp: alternative_def split: if_splits)
  then show ?thesis
  proof cases
    case n
    from run show ?thesis unfolding n nullP_def
      by (rule trimP_weak [OF _ in_bounds_cores(1)]) (auto dest: null_core_first null_core_keep)
  next
    case b
    from run show ?thesis unfolding b boolP_def
      by (rule trimP_weak [OF _ in_bounds_cores(2)]) (auto dest: bool_core_first bool_core_keep)
  next
    case m
    from run show ?thesis unfolding m numP_def
      by (rule trimP_weak [OF _ in_bounds_cores(3)]) (auto dest: num_core_first num_core_weak)
  next
    case s
    from run obtain k where "escapeStrP s = Some (Success k t)"
      unfolding s strP_def mapP_Success by blast
    from escapeStrP_weak [OF this, of x] show ?thesis
      unfolding s strP_def by (auto simp: mapP_case)
  next
    case a
    from run show ?thesis unfolding a arrayP.simps
    proof (rule trimP_weak [OF _ in_bounds_cores(4)])
      fix s1 t1 assume c: "arr_coreP rnd m s1 = Some (Success v t1)"
      then show "remaining s1 \<noteq> []" by (rule arr_core_first)
      have "arr_coreP rnd m (extend x s1) = Some (Success v (extend x t1))"
        by (rule arr_core_keep [OF jsonP_keep c])
      then show "\<exists>v' t1'. arr_coreP rnd m (extend x s1) = Some (Success v' t1')" by blast
    qed
  next
    case o
    from run show ?thesis unfolding o objectP.simps
    proof (rule trimP_weak [OF _ in_bounds_cores(5)])
      fix s1 t1 assume c: "obj_coreP rnd m s1 = Some (Success v t1)"
      then show "remaining s1 \<noteq> []" by (rule obj_core_first)
      have "obj_coreP rnd m (extend x s1) = Some (Success v (extend x t1))"
        by (rule obj_core_keep [OF jsonP_keep c])
      then show "\<exists>v' t1'. obj_coreP rnd m (extend x s1) = Some (Success v' t1')" by blast
    qed
  qed
qed

lemma jsonP_weak:
  assumes "jsonP rnd n s = Some (Success v t)"
  shows "\<exists>v' t'. jsonP rnd n (extend x s) = Some (Success v' t')"
proof (cases n)
  case 0
  with assms show ?thesis by (simp add: jsonP.simps(1))
next
  case (Suc m)
  from jsonP_SuccessD [OF assms [unfolded Suc]] obtain ws s1 c1 r1 q where
    1: "spaces s = Some (Success ws s1)" and 2: "remaining s1 = c1 # r1"
    and 3: "alternative rnd m c1 = Some q" and 4: "q s = Some (Success v t)" by blast
  from 2 have "remaining s1 \<noteq> []" by simp
  note 5 = spaces_keep [OF 1 this, of x]
  from alternative_weak [OF 3 4, of x] obtain v' t' where "q (extend x s) = Some (Success v' t')"
    by blast
  from jsonP_from_alternative [OF 5 remaining_extend [OF 2] 3 this] show ?thesis
    unfolding Suc by blast
qed

lemma no_eof_labelI:
  "(\<And>s t e. p s = Some (Failure t e) \<Longrightarrow> ''expect end of file'' \<notin> set e) \<Longrightarrow> no_eof_label p"
  unfolding no_eof_label_def by blast

lemma no_eof_labelD:
  "no_eof_label p \<Longrightarrow> p s = Some (Failure t e) \<Longrightarrow> ''expect end of file'' \<notin> set e"
  unfolding no_eof_label_def by blast

lemma no_eof_idP: "no_eof_label idP"
  by (rule no_eof_labelI) (auto simp: idP_def split: if_splits)

lemma predP_case:
  "predP f s = (case idP s of None \<Rightarrow> None | Some (Failure t e) \<Rightarrow> Some (Failure t e)
     | Some (Success c t) \<Rightarrow>
         if f c then Some (Success c t) else Some (Failure t [''unexpect '' @ [c]]))"
  by (simp add: predP_def split: option.splits ParseResult.splits)

lemma stringP_case:
  "stringP (c # cs) s = (case charP c s of None \<Rightarrow> None
     | Some (Failure t e) \<Rightarrow> Some (Failure t e)
     | Some (Success a t) \<Rightarrow>
         (case stringP cs t of None \<Rightarrow> None | Some (Failure t' e) \<Rightarrow> None
          | Some (Success b t') \<Rightarrow> Some (Success (c # cs) t')))"
  by (simp add: stringP.simps(2) split: option.splits ParseResult.splits)

lemma no_eof_predP: "no_eof_label (predP f)"
proof (rule no_eof_labelI)
  fix s t e assume "predP f s = Some (Failure t e)"
  then consider "idP s = Some (Failure t e)" | c where "e = [''unexpect '' @ [c]]"
    by (auto simp: predP_case split: option.splits ParseResult.splits if_splits)
  then show "''expect end of file'' \<notin> set e"
    by cases (auto dest: no_eof_labelD [OF no_eof_idP])
qed

lemma no_eof_charP: "no_eof_label (charP c)"
  by (simp add: charP_def no_eof_predP)

lemma no_eof_pureP: "no_eof_label (pureP v)"
  by (simp add: no_eof_label_def pureP_def)

lemma no_eof_mapP: "no_eof_label p \<Longrightarrow> no_eof_label (mapP p f)"
  by (rule no_eof_labelI) (auto simp: mapP_Failure dest: no_eof_labelD)

lemma no_eof_andP: "no_eof_label pa \<Longrightarrow> no_eof_label pb \<Longrightarrow> no_eof_label (andP pa pb f)"
  by (rule no_eof_labelI) (auto simp: andP_Failure dest: no_eof_labelD)

lemma no_eof_leftP: "no_eof_label pa \<Longrightarrow> no_eof_label pb \<Longrightarrow> no_eof_label (leftP pa pb)"
  by (simp add: leftP_def no_eof_andP)

lemma no_eof_rightP: "no_eof_label pa \<Longrightarrow> no_eof_label pb \<Longrightarrow> no_eof_label (rightP pa pb)"
  by (simp add: rightP_def no_eof_andP)

lemma no_eof_orP: "no_eof_label p \<Longrightarrow> list_all no_eof_label ps \<Longrightarrow> no_eof_label (orP p ps)"
proof (induction ps arbitrary: p)
  case Nil
  then show ?case by simp
next
  case (Cons q qs)
  then have q: "no_eof_label (orP q qs)" by simp
  show ?case
  proof (rule no_eof_labelI)
    fix s t e assume "orP p (q # qs) s = Some (Failure t e)"
    then have "orP q qs s = Some (Failure t e)"
      by (auto simp: orP_case split: option.splits ParseResult.splits)
    then show "''expect end of file'' \<notin> set e" by (rule no_eof_labelD [OF q])
  qed
qed

lemma no_eof_manyP: "no_eof_label (manyP p)"
  by (rule no_eof_labelI) (auto dest: manyP_many_run)

lemma no_eof_betweenP:
  "no_eof_label lp \<Longrightarrow> no_eof_label rp \<Longrightarrow> no_eof_label p \<Longrightarrow> no_eof_label (betweenP lp rp p)"
  by (simp add: betweenP_def no_eof_rightP no_eof_leftP)

lemma no_eof_trimP: "no_eof_label p \<Longrightarrow> no_eof_label (trimP p)"
  by (simp add: trimP_def spaces_def no_eof_rightP no_eof_leftP no_eof_manyP)

lemma no_eof_stringP: "no_eof_label (stringP str)"
proof (induction str)
  case Nil
  then show ?case by (simp add: no_eof_label_def)
next
  case (Cons c cs)
  show ?case
  proof (rule no_eof_labelI)
    fix s t e assume "stringP (c # cs) s = Some (Failure t e)"
    then have "charP c s = Some (Failure t e)"
      by (auto simp: stringP_case split: option.splits ParseResult.splits)
    then show "''expect end of file'' \<notin> set e"
      by (rule no_eof_labelD [OF no_eof_charP])
  qed
qed

lemmas no_eof_intros = no_eof_idP no_eof_predP no_eof_charP no_eof_pureP no_eof_mapP
  no_eof_andP no_eof_leftP no_eof_rightP no_eof_manyP no_eof_betweenP no_eof_trimP
  no_eof_stringP

lemma no_eof_natP: "no_eof_label natP"
  by (simp add: natP_def someP_def digitP_def no_eof_intros)

lemma no_eof_intP: "no_eof_label intP"
  by (simp add: intP_def no_eof_orP no_eof_natP no_eof_intros)

lemma no_eof_doubleP: "no_eof_label (doubleP rnd)"
  by (simp add: doubleP_def someP_def digitP_def no_eof_orP no_eof_intP no_eof_intros)

lemma no_eof_escapeStrP: "no_eof_label escapeStrP"
  by (simp add: escapeStrP_def escapeP_def no_eof_orP no_eof_intros)

lemma no_eof_json:
  "no_eof_label (jsonP rnd n) \<and> no_eof_label (arrayP rnd n) \<and> no_eof_label (itemP rnd n)
   \<and> no_eof_label (objectP rnd n)"
proof (induction n)
  case 0
  have j: "no_eof_label (jsonP rnd 0)" by (simp add: no_eof_label_def jsonP.simps(1))
  then show ?case
    by (simp add: arrayP.simps itemP.simps objectP.simps lazyP_const no_eof_orP
        no_eof_escapeStrP no_eof_intros)
next
  case (Suc n)
  then have j: "no_eof_label (jsonP rnd (Suc n))"
    by (simp add: jsonP.simps(2) lazyP_const nullP_def boolP_def numP_def strP_def
        no_eof_orP no_eof_doubleP no_eof_escapeStrP no_eof_intros)
  then show ?case
    by (simp add: arrayP.simps itemP.simps objectP.simps lazyP_const no_eof_orP
        no_eof_escapeStrP no_eof_intros)
qed

text \<open>
  C9.  If \<^verbatim>\<open>jsonP\<close> succeeds on an input, it succeeds on that input followed by any
  further text, with the same bound on the nesting.  If moreover the parse ended in
  front of a character other than a dot, the value and the end position are the same
  whatever follows.  \<^verbatim>\<open>parse(jsonP(), "null x")\<close> succeeds with the null value at position
  5 of 6.  No failure of \<^verbatim>\<open>jsonP\<close> carries the label of \<^verbatim>\<open>eofP\<close>: the grammar never asks
  for the end of the input.
\<close>

theorem jsonP_accepts_trailing_text:
  "(parse (jsonP rnd n) w = Some (Success v t) \<longrightarrow>
      (\<exists>v' t'. parse (jsonP rnd n) (w @ x) = Some (Success v' t'))) \<and>
   (parse (jsonP rnd n) w = Some (Success v t) \<and> remaining t = c # r \<and> c \<noteq> CHR ''.'' \<longrightarrow>
      parse (jsonP rnd n) (w @ x) = Some (Success v (extend x t))) \<and>
   parse (jsonP rnd (Suc k)) ''null x'' = Some (Success JSON_NULL (ParseState 5 ''null x'')) \<and>
   (jsonP rnd n s = Some (Failure u e) \<longrightarrow> ''expect end of file'' \<notin> set e)"
proof (intro conjI impI; (elim conjE)?)
  have e: "extend x (ParseState 0 w) = ParseState 0 (w @ x)" by (simp add: extend_def)
  {
    assume "parse (jsonP rnd n) w = Some (Success v t)"
    then have "jsonP rnd n (ParseState 0 w) = Some (Success v t)" by (simp add: parse_def)
    from jsonP_weak [OF this, of x]
    show "\<exists>v' t'. parse (jsonP rnd n) (w @ x) = Some (Success v' t')"
      by (simp add: parse_def e)
  }
  {
    assume "parse (jsonP rnd n) w = Some (Success v t)" "remaining t = c # r" "c \<noteq> CHR ''.''"
    from jsonP_keep [OF this(1) [unfolded parse_def] this(2,3), of x]
    show "parse (jsonP rnd n) (w @ x) = Some (Success v (extend x t))"
      by (simp add: parse_def e)
  }
next
  show "parse (jsonP rnd (Suc k)) ''null x'' = Some (Success JSON_NULL (ParseState 5 ''null x''))"
    by code_simp
next
  assume "jsonP rnd n s = Some (Failure u e)"
  with no_eof_json [of rnd n] show "''expect end of file'' \<notin> set e"
    by (auto dest: no_eof_labelD)
qed

text \<open>
  \<^verbatim>\<open>"null"\<close> followed by \<^verbatim>\<open>" x"\<close>; \<^verbatim>\<open>"[1] x"\<close>, which ends in front of \<^verbatim>\<open>x\<close>, followed by
  \<^verbatim>\<open>"yz"\<close>; and the failure on \<^verbatim>\<open>"[1,]"\<close>.
\<close>

theorem jsonP_accepts_trailing_text_witness:
  "parse (jsonP (\<lambda>x. x) 1) ''null'' = Some (Success JSON_NULL (ParseState 4 ''null'')) \<and>
   (\<exists>v' t'. parse (jsonP (\<lambda>x. x) 1) (''null'' @ '' x'') = Some (Success v' t')) \<and>
   parse (jsonP (\<lambda>x. x) 2) ''[1] x''
     = Some (Success (JSON_ARRAY [JSON_NUM 1]) (ParseState 4 ''[1] x'')) \<and>
   remaining (ParseState 4 ''[1] x'') = ''x'' \<and>
   parse (jsonP (\<lambda>x. x) 2) (''[1] x'' @ ''yz'')
     = Some (Success (JSON_ARRAY [JSON_NUM 1]) (extend ''yz'' (ParseState 4 ''[1] x''))) \<and>
   jsonP (\<lambda>x. x) 2 (ParseState 0 ''[1,]'')
     = Some (Failure (ParseState 1 ''[1,]'') [''unexpect ['']) \<and>
   ''expect end of file'' \<notin> set [''unexpect ['']"
proof -
  have 1: "parse (jsonP (\<lambda>x. x) 1) ''null'' = Some (Success JSON_NULL (ParseState 4 ''null''))"
    by code_simp
  from jsonP_accepts_trailing_text [THEN conjunct1, THEN mp, OF 1]
  have 2: "\<exists>v' t'. parse (jsonP (\<lambda>x. x) 1) (''null'' @ '' x'') = Some (Success v' t')" .
  have 3: "parse (jsonP (\<lambda>x. x) 2) ''[1] x''
     = Some (Success (JSON_ARRAY [JSON_NUM 1]) (ParseState 4 ''[1] x''))"
    by code_simp
  have 4: "remaining (ParseState 4 ''[1] x'') = CHR ''x'' # []"
    by (simp add: remaining_def)
  have 5: "CHR ''x'' \<noteq> CHR ''.''" by simp
  from jsonP_accepts_trailing_text [THEN conjunct2, THEN conjunct1, THEN mp, OF conjI,
      OF 3 conjI, OF 4 5]
  have 6: "parse (jsonP (\<lambda>x. x) 2) (''[1] x'' @ ''yz'')
     = Some (Success (JSON_ARRAY [JSON_NUM 1]) (extend ''yz'' (ParseState 4 ''[1] x'')))" .
  have 7: "jsonP (\<lambda>x. x) 2 (ParseState 0 ''[1,]'')
     = Some (Failure (ParseState 1 ''[1,]'') [''unexpect [''])"
    by code_simp
  from jsonP_accepts_trailing_text [THEN conjunct2, THEN conjunct2, THEN conjunct2, THEN mp, OF 7]
  have 8: "''expect end of file'' \<notin> set [''unexpect ['']" .
  from 1 2 3 4 6 7 8 show ?thesis by blast
qed

end
